theory Spec2Isabelle
  imports Main
begin

section \<open>Python values that travel through the telemetry codec\<close>

text \<open>
  \<^verbatim>\<open>rafiki/model/log.py\<close> builds Python dictionaries, serialises them with
  \<^verbatim>\<open>json.dumps\<close> and reads them back with \<^verbatim>\<open>json.loads\<close>. The values involved
  are the JSON-shaped Python values: \<^verbatim>\<open>None\<close>, booleans, integers, floats, strings,
  lists and dictionaries with string keys.

  A dictionary is an association list in insertion order (Python dictionaries keep it);
  the operations below keep the keys distinct. A float is represented by its decimal
  literal (what \<^verbatim>\<open>float.__repr__\<close> prints and \<^verbatim>\<open>float()\<close> reads back); float
  arithmetic is not modelled. Text is \<^typ>\<open>string\<close>: code points below 256.
\<close>

datatype json =
    JNull
  | JBool bool
  | JInt int
  | JFloat string
  | JStr string
  | JArr "json list"
  | JObj "(string \<times> json) list"

type_synonym pydict = "(string \<times> json) list"

datatype py_error =
    TypeError
  | KeyError string
  | Exception string

subsection \<open>Dictionary operations\<close>

text \<open>\<^verbatim>\<open>d[k] = v\<close>: an existing key keeps its position, a new key goes last.\<close>

fun dict_set :: "pydict \<Rightarrow> string \<Rightarrow> json \<Rightarrow> pydict" where
  "dict_set [] k v = [(k, v)]"
| "dict_set ((k', v') # d) k v =
     (if k' = k then (k, v) # d else (k', v') # dict_set d k v)"

text \<open>\<^verbatim>\<open>k in d\<close> for a dictionary.\<close>

definition dict_has :: "pydict \<Rightarrow> string \<Rightarrow> bool" where
  "dict_has d k = (map_of d k \<noteq> None)"

text \<open>\<^verbatim>\<open>d.get(k)\<close>: the value, or \<^verbatim>\<open>None\<close>.\<close>

definition dict_get :: "pydict \<Rightarrow> string \<Rightarrow> json" where
  "dict_get d k = (case map_of d k of None \<Rightarrow> JNull | Some v \<Rightarrow> v)"

text \<open>\<^verbatim>\<open>del d[k]\<close>: raises \<^verbatim>\<open>KeyError\<close> when the key is absent.\<close>

definition dict_del :: "pydict \<Rightarrow> string \<Rightarrow> py_error + pydict" where
  "dict_del d k =
     (if dict_has d k then Inr (filter (\<lambda>kv. fst kv \<noteq> k) d) else Inl (KeyError k))"

text \<open>\<^verbatim>\<open>dict(pairs)\<close>: a repeated key keeps its first position and its last value.\<close>

definition dict_of_pairs :: "(string \<times> json) list \<Rightarrow> pydict" where
  "dict_of_pairs ps = foldl (\<lambda>d kv. dict_set d (fst kv) (snd kv)) [] ps"

section \<open>The json library: \<^verbatim>\<open>json.dumps\<close>\<close>

text \<open>
  \<^verbatim>\<open>json.dumps\<close> with its default options: separators \<^verbatim>\<open>", "\<close> and \<^verbatim>\<open>": "\<close>,
  \<^verbatim>\<open>ensure_ascii=True\<close>, so that every character outside the printable ASCII range is
  written as an escape.
\<close>

definition dquote :: char where
  "dquote = CHR 0x22"

definition backslash :: char where
  "backslash = CHR 0x5C"

definition digit_char :: "nat \<Rightarrow> char" where
  "digit_char n = ''0123456789abcdef'' ! n"

fun show_nat :: "nat \<Rightarrow> string" where
  "show_nat n =
     (if n < 10 then [digit_char n] else show_nat (n div 10) @ [digit_char (n mod 10)])"

declare show_nat.simps [simp del]

definition show_int :: "int \<Rightarrow> string" where
  "show_int i = (if i < 0 then CHR ''-'' # show_nat (nat (- i)) else show_nat (nat i))"

definition esc_char :: "char \<Rightarrow> string" where
  "esc_char c =
     (if c = dquote then [backslash, dquote]
      else if c = backslash then [backslash, backslash]
      else if c = CHR 0x0A then [backslash, CHR ''n'']
      else if c = CHR 0x0D then [backslash, CHR ''r'']
      else if c = CHR 0x09 then [backslash, CHR ''t'']
      else if c = CHR 0x08 then [backslash, CHR ''b'']
      else if c = CHR 0x0C then [backslash, CHR ''f'']
      else if (32::nat) \<le> of_char c \<and> of_char c \<le> (126::nat) then [c]
      else [backslash, CHR ''u'', CHR ''0'', CHR ''0'',
            digit_char (of_char c div 16), digit_char (of_char c mod 16)])"

definition encode_str :: "string \<Rightarrow> string" where
  "encode_str s = dquote # concat (map esc_char s) @ [dquote]"

fun join :: "string \<Rightarrow> string list \<Rightarrow> string" where
  "join sep [] = []"
| "join sep [x] = x"
| "join sep (x # y # ys) = x @ sep @ join sep (y # ys)"

fun json_dumps :: "json \<Rightarrow> string" where
  "json_dumps JNull = ''null''"
| "json_dumps (JBool b) = (if b then ''true'' else ''false'')"
| "json_dumps (JInt i) = show_int i"
| "json_dumps (JFloat r) = r"
| "json_dumps (JStr s) = encode_str s"
| "json_dumps (JArr xs) = ''['' @ join '', '' (map json_dumps xs) @ '']''"
| "json_dumps (JObj d) =
     ''{'' @ join '', '' (map (\<lambda>kv. encode_str (fst kv) @ '': '' @ json_dumps (snd kv)) d) @ ''}''"

section \<open>The json library: \<^verbatim>\<open>json.loads\<close>\<close>

text \<open>
  The decoder of the standard library: whitespace is blank, tab, line feed and carriage
  return; a number follows \<^verbatim>\<open>-?(0|[1-9]\d*)(\.\d+)?([eE][-+]?\d+)?\<close> and is a float
  when it has a fraction or an exponent; strings are strict (no raw control character);
  \<^verbatim>\<open>NaN\<close>, \<^verbatim>\<open>Infinity\<close> and \<^verbatim>\<open>-Infinity\<close> are accepted. \<open>None\<close> stands for the
  \<^verbatim>\<open>ValueError\<close> (\<^verbatim>\<open>JSONDecodeError\<close>) the library raises.
\<close>

definition is_ws :: "char \<Rightarrow> bool" where
  "is_ws c = (c = CHR '' '' \<or> c = CHR 0x09 \<or> c = CHR 0x0A \<or> c = CHR 0x0D)"

definition skip_ws :: "string \<Rightarrow> string" where
  "skip_ws s = dropWhile is_ws s"

definition is_digit :: "char \<Rightarrow> bool" where
  "is_digit c = ((48::nat) \<le> of_char c \<and> of_char c \<le> (57::nat))"

definition digit_val :: "char \<Rightarrow> nat" where
  "digit_val c = of_char c - 48"

definition nat_of_digits :: "string \<Rightarrow> nat" where
  "nat_of_digits ds = foldl (\<lambda>a c. 10 * a + digit_val c) 0 ds"

definition hexval :: "char \<Rightarrow> nat option" where
  "hexval c =
     (let n = (of_char c :: nat) in
      if 48 \<le> n \<and> n \<le> 57 then Some (n - 48)
      else if 97 \<le> n \<and> n \<le> 102 then Some (n - 87)
      else if 65 \<le> n \<and> n \<le> 70 then Some (n - 55)
      else None)"

definition hex4 :: "char \<Rightarrow> char \<Rightarrow> char \<Rightarrow> char \<Rightarrow> nat option" where
  "hex4 a b c d =
     (case (hexval a, hexval b, hexval c, hexval d) of
        (Some p, Some q, Some r, Some s) \<Rightarrow> Some (((p * 16 + q) * 16 + r) * 16 + s)
      | _ \<Rightarrow> None)"

definition unescape :: "char \<Rightarrow> char option" where
  "unescape e =
     (if e = dquote then Some dquote
      else if e = backslash then Some backslash
      else if e = CHR ''/'' then Some (CHR ''/'')
      else if e = CHR ''b'' then Some (CHR 0x08)
      else if e = CHR ''f'' then Some (CHR 0x0C)
      else if e = CHR ''n'' then Some (CHR 0x0A)
      else if e = CHR ''r'' then Some (CHR 0x0D)
      else if e = CHR ''t'' then Some (CHR 0x09)
      else None)"

definition cons_char :: "char \<Rightarrow> (string \<times> string) option \<Rightarrow> (string \<times> string) option" where
  "cons_char c res = map_option (\<lambda>xr. (c # fst xr, snd xr)) res"

text \<open>
  The body of a string, after its opening quote: the decoded text and the input left
  after the closing quote. An escape \<^verbatim>\<open>\uXXXX\<close> of a code point from 256 on lies outside
  \<^typ>\<open>char\<close>; the model refuses it.
\<close>

fun scanstring :: "string \<Rightarrow> (string \<times> string) option" where
  "scanstring [] = None"
| "scanstring (c # cs) =
     (if c = dquote then Some ([], cs)
      else if c = backslash then
        (case cs of
           [] \<Rightarrow> None
         | e # r \<Rightarrow>
             if e = CHR ''u'' then
               (case r of
                  a # b # x # y # r' \<Rightarrow>
                    (case hex4 a b x y of
                       None \<Rightarrow> None
                     | Some n \<Rightarrow> if n < 256 then cons_char (char_of n) (scanstring r') else None)
                | _ \<Rightarrow> None)
             else
               (case unescape e of
                  None \<Rightarrow> None
                | Some ch \<Rightarrow> cons_char ch (scanstring r)))
      else if (of_char c :: nat) < 32 then None
      else cons_char c (scanstring cs))"

text \<open>The three parts of a number: each returns what it matched and what is left.\<close>

definition scan_intpart :: "string \<Rightarrow> (string \<times> string) option" where
  "scan_intpart s =
     (case s of
        [] \<Rightarrow> None
      | c # cs \<Rightarrow>
          if \<not> is_digit c then None
          else if c = CHR ''0'' then Some ([c], cs)
          else Some (c # takeWhile is_digit cs, dropWhile is_digit cs))"

definition scan_frac :: "string \<Rightarrow> string \<times> string" where
  "scan_frac s =
     (case s of
        d # e # r \<Rightarrow>
          if d = CHR ''.'' \<and> is_digit e
          then (d # e # takeWhile is_digit r, dropWhile is_digit r)
          else ([], s)
      | _ \<Rightarrow> ([], s))"

definition scan_sign :: "string \<Rightarrow> string \<times> string" where
  "scan_sign s =
     (case s of
        [] \<Rightarrow> ([], s)
      | c # cs \<Rightarrow> if c = CHR ''+'' \<or> c = CHR ''-'' then ([c], cs) else ([], s))"

definition scan_exp :: "string \<Rightarrow> string \<times> string" where
  "scan_exp s =
     (case s of
        [] \<Rightarrow> ([], s)
      | e # r \<Rightarrow>
          if e = CHR ''e'' \<or> e = CHR ''E'' then
            (case snd (scan_sign r) of
               [] \<Rightarrow> ([], s)
             | d # ds \<Rightarrow>
                 if is_digit d
                 then (e # fst (scan_sign r) @ d # takeWhile is_digit ds, dropWhile is_digit ds)
                 else ([], s))
          else ([], s))"

definition scan_magnitude :: "bool \<Rightarrow> string \<Rightarrow> (json \<times> string) option" where
  "scan_magnitude neg s =
     (case scan_intpart s of
        None \<Rightarrow> None
      | Some (ip, s2) \<Rightarrow>
          (let (fr, s3) = scan_frac s2;
               (ex, s4) = scan_exp s3
           in if fr = [] \<and> ex = []
              then Some (JInt (if neg then - int (nat_of_digits ip) else int (nat_of_digits ip)), s4)
              else Some (JFloat ((if neg then ''-'' else []) @ ip @ fr @ ex), s4)))"

definition scan_number :: "string \<Rightarrow> (json \<times> string) option" where
  "scan_number s =
     (case s of
        [] \<Rightarrow> None
      | c # cs \<Rightarrow> if c = CHR ''-'' then scan_magnitude True cs else scan_magnitude False s)"

text \<open>
  The recursive descent of the decoder. The first argument bounds the number of nested
  calls; \<open>json_loads\<close> starts it at twice the length of the input plus one, and a
  larger bound decodes the same (\<open>json_loads_fuel\<close> below), so the bound stands for the
  unbounded recursion of the library. The limits of the interpreter (recursion depth,
  the length of integer literals) are not modelled.
\<close>

fun scan_once :: "nat \<Rightarrow> string \<Rightarrow> (json \<times> string) option"
  and scan_items :: "nat \<Rightarrow> string \<Rightarrow> (json list \<times> string) option"
  and scan_pairs :: "nat \<Rightarrow> string \<Rightarrow> ((string \<times> json) list \<times> string) option"
where
  "scan_once 0 s = None"
| "scan_once (Suc n) s =
     (case s of
        [] \<Rightarrow> None
      | c # cs \<Rightarrow>
          if c = dquote then map_option (\<lambda>xr. (JStr (fst xr), snd xr)) (scanstring cs)
          else if c = CHR ''{'' then
            (case skip_ws cs of
               [] \<Rightarrow> None
             | q # r \<Rightarrow>
                 if q = CHR ''}'' then Some (JObj [], r)
                 else if q = dquote
                 then map_option (\<lambda>pr. (JObj (dict_of_pairs (fst pr)), snd pr)) (scan_pairs n r)
                 else None)
          else if c = CHR ''['' then
            (case skip_ws cs of
               [] \<Rightarrow> None
             | q # r \<Rightarrow>
                 if q = CHR '']'' then Some (JArr [], r)
                 else map_option (\<lambda>vr. (JArr (fst vr), snd vr)) (scan_items n (q # r)))
          else if take 4 s = ''null'' then Some (JNull, drop 4 s)
          else if take 4 s = ''true'' then Some (JBool True, drop 4 s)
          else if take 5 s = ''false'' then Some (JBool False, drop 5 s)
          else
            (case scan_number s of
               Some vr \<Rightarrow> Some vr
             | None \<Rightarrow>
                 if take 3 s = ''NaN'' then Some (JFloat ''NaN'', drop 3 s)
                 else if take 8 s = ''Infinity'' then Some (JFloat ''Infinity'', drop 8 s)
                 else if take 9 s = ''-Infinity'' then Some (JFloat ''-Infinity'', drop 9 s)
                 else None))"
| "scan_items 0 s = None"
| "scan_items (Suc n) s =
     (case scan_once n s of
        None \<Rightarrow> None
      | Some (v, r) \<Rightarrow>
          (case skip_ws r of
             [] \<Rightarrow> None
           | q # r' \<Rightarrow>
               if q = CHR '']'' then Some ([v], r')
               else if q = CHR '','' then
                 map_option (\<lambda>vr. (v # fst vr, snd vr)) (scan_items n (skip_ws r'))
               else None))"
| "scan_pairs 0 s = None"
| "scan_pairs (Suc n) s =
     (case scanstring s of
        None \<Rightarrow> None
      | Some (k, r) \<Rightarrow>
          (case skip_ws r of
             [] \<Rightarrow> None
           | q # r1 \<Rightarrow>
               if q \<noteq> CHR '':'' then None
               else
                 (case scan_once n (skip_ws r1) of
                    None \<Rightarrow> None
                  | Some (v, r2) \<Rightarrow>
                      (case skip_ws r2 of
                         [] \<Rightarrow> None
                       | q' # r3 \<Rightarrow>
                           if q' = CHR ''}'' then Some ([(k, v)], r3)
                           else if q' = CHR '','' then
                             (case skip_ws r3 of
                                [] \<Rightarrow> None
                              | q'' # r4 \<Rightarrow>
                                  if q'' = dquote
                                  then map_option (\<lambda>pr. ((k, v) # fst pr, snd pr)) (scan_pairs n r4)
                                  else None)
                           else None))))"

text \<open>What follows a value inside the output of \<open>json_dumps\<close>.\<close>

definition delimited :: "string \<Rightarrow> bool" where
  "delimited r =
     (case r of [] \<Rightarrow> True | c # _ \<Rightarrow> c = CHR '','' \<or> c = CHR '']'' \<or> c = CHR ''}'')"

text \<open>
  The values \<open>json_dumps\<close> is applied to in this development: a float is the literal
  of a finite float, and the keys of a dictionary are distinct.
\<close>

fun wf_json :: "json \<Rightarrow> bool" where
  "wf_json (JFloat r) = (scan_number r = Some (JFloat r, []))"
| "wf_json (JArr xs) = (\<forall>x \<in> set xs. wf_json x)"
| "wf_json (JObj d) = (distinct (map fst d) \<and> (\<forall>kv \<in> set d. wf_json (snd kv)))"
| "wf_json v = True"

text \<open>The first character of a serialised value is none of these.\<close>

definition opens_value :: "char \<Rightarrow> bool" where
  "opens_value c = (\<not> is_ws c \<and> c \<noteq> CHR '']'' \<and> c \<noteq> CHR ''}'')"

definition json_loads :: "string \<Rightarrow> json option" where
  "json_loads s =
     (let s' = skip_ws s
      in case scan_once (2 * length s' + 1) s' of
           None \<Rightarrow> None
         | Some (v, r) \<Rightarrow> if skip_ws r = [] then Some v else None)"

section \<open>\<^verbatim>\<open>rafiki/model/log.py\<close>: the model logger\<close>

text \<open>The class \<^verbatim>\<open>LogType\<close>.\<close>

definition LogType_PLOT :: string where
  "LogType_PLOT = ''PLOT''"

definition LogType_METRICS :: string where
  "LogType_METRICS = ''METRICS''"

definition LogType_MESSAGE :: string where
  "LogType_MESSAGE = ''MESSAGE''"

text \<open>
  The state a \<^verbatim>\<open>ModelLogger\<close> acts on: the lines handed to \<^verbatim>\<open>self._logger.info\<close>,
  oldest first, and the number of times the clock has been read. The clock itself is a
  parameter: \<open>clock n\<close> is what
  \<^verbatim>\<open>datetime.datetime.now().strftime(MODEL_LOG_DATETIME_FORMAT)\<close> returns at the
  \<open>n\<close>-th reading.
\<close>

record logger =
  lines :: "string list"
  reads :: nat

text \<open>A logger that has emitted nothing yet.\<close>

definition fresh :: logger where
  "fresh = \<lparr>lines = [], reads = 0\<rparr>"

text \<open>A clock that stands still, for the examples.\<close>

definition noon :: "nat \<Rightarrow> string" where
  "noon n = ''2024-05-01T12:00:00''"

text \<open>
  \<^verbatim>\<open>ModelLogger._log\<close>: sets the keys \<^verbatim>\<open>type\<close> and \<^verbatim>\<open>time\<close> of the dictionary it
  is given, serialises it and emits the line.
\<close>

definition log_internal :: "(nat \<Rightarrow> string) \<Rightarrow> string \<Rightarrow> pydict \<Rightarrow> logger \<Rightarrow> logger" where
  "log_internal clock log_type log_dict L =
     (let d1 = dict_set log_dict ''type'' (JStr log_type);
          d2 = dict_set d1 ''time'' (JStr (clock (reads L)));
          log_line = json_dumps (JObj d2)
      in L\<lparr>lines := lines L @ [log_line], reads := Suc (reads L)\<rparr>)"

text \<open>\<^verbatim>\<open>ModelLogger.define_plot(title, metrics, x_axis=None)\<close>.\<close>

definition define_plot ::
  "(nat \<Rightarrow> string) \<Rightarrow> string \<Rightarrow> string list \<Rightarrow> string option \<Rightarrow> logger \<Rightarrow> logger" where
  "define_plot clock title metrics x_axis L =
     log_internal clock LogType_PLOT
       [(''title'', JStr title),
        (''metrics'', JArr (map JStr metrics)),
        (''x_axis'', case x_axis of None \<Rightarrow> JNull | Some x \<Rightarrow> JStr x)] L"

text \<open>
  \<^verbatim>\<open>ModelLogger.log(msg='', **metrics)\<close>: the keyword arguments arrive as a fresh
  dictionary; an empty string and an empty dictionary are false.
\<close>

definition log :: "(nat \<Rightarrow> string) \<Rightarrow> string \<Rightarrow> pydict \<Rightarrow> logger \<Rightarrow> logger" where
  "log clock msg metrics L =
     (let L1 = (if msg \<noteq> [] then log_internal clock LogType_MESSAGE [(''message'', JStr msg)] L
                else L)
      in if metrics \<noteq> [] then log_internal clock LogType_METRICS metrics L1 else L1)"

text \<open>The two convenience methods.\<close>

definition define_loss_plot :: "(nat \<Rightarrow> string) \<Rightarrow> logger \<Rightarrow> logger" where
  "define_loss_plot clock L = define_plot clock ''Loss Over Epochs'' [''loss''] (Some ''epoch'') L"

definition log_loss :: "(nat \<Rightarrow> string) \<Rightarrow> json \<Rightarrow> json \<Rightarrow> logger \<Rightarrow> logger" where
  "log_loss clock loss epoch L = log clock [] [(''loss'', loss), (''epoch'', epoch)] L"

text \<open>
  \<^verbatim>\<open>ModelLogger.parse_log_line\<close>: whatever \<^verbatim>\<open>json.loads\<close> returns, or the empty
  dictionary when it raises \<^verbatim>\<open>ValueError\<close>.
\<close>

definition parse_log_line :: "string \<Rightarrow> json" where
  "parse_log_line log_line =
     (case json_loads log_line of Some v \<Rightarrow> v | None \<Rightarrow> JObj [])"

subsection \<open>The operators \<^verbatim>\<open>parse_logs\<close> applies to a decoded line\<close>

text \<open>\<^verbatim>\<open>k in s\<close> for two strings: \<open>k\<close> occurs in \<open>s\<close>.\<close>

fun is_substring :: "string \<Rightarrow> string \<Rightarrow> bool" where
  "is_substring k [] = (k = [])"
| "is_substring k (c # cs) = (take (length k) (c # cs) = k \<or> is_substring k cs)"

text \<open>
  \<^verbatim>\<open>k in x\<close> for a string \<open>k\<close>: key membership in a dictionary, element membership in
  a list, substring test in a string, \<^verbatim>\<open>TypeError\<close> otherwise.
\<close>

fun py_in :: "string \<Rightarrow> json \<Rightarrow> py_error + bool" where
  "py_in k (JObj d) = Inr (dict_has d k)"
| "py_in k (JArr xs) = Inr (List.member xs (JStr k))"
| "py_in k (JStr s) = Inr (is_substring k s)"
| "py_in k v = Inl TypeError"

text \<open>\<^verbatim>\<open>x[k]\<close> for a string \<open>k\<close>: only a dictionary can be indexed by a string.\<close>

fun py_getitem :: "json \<Rightarrow> string \<Rightarrow> py_error + json" where
  "py_getitem (JObj d) k = (case map_of d k of Some v \<Rightarrow> Inr v | None \<Rightarrow> Inl (KeyError k))"
| "py_getitem v k = Inl TypeError"

text \<open>\<^verbatim>\<open>del x[k]\<close> for a string \<open>k\<close>.\<close>

fun py_delitem :: "json \<Rightarrow> string \<Rightarrow> py_error + pydict" where
  "py_delitem (JObj d) k = dict_del d k"
| "py_delitem v k = Inl TypeError"

subsection \<open>\<^verbatim>\<open>ModelLogger.parse_logs\<close>\<close>

text \<open>The three lists the loop appends to: messages, metrics, plots.\<close>

type_synonym parsed = "json list \<times> json list \<times> json list"

text \<open>
  One iteration of the loop. A dictionary display \<^verbatim>\<open>{'time': t, **log_dict}\<close> inserts
  its entries from left to right.
\<close>

definition parse_logs_step :: "parsed \<Rightarrow> string \<Rightarrow> py_error + parsed" where
  "parse_logs_step acc log_line =
     (let log_dict = parse_log_line log_line in
      case py_in ''time'' log_dict of
        Inl e \<Rightarrow> Inl e
      | Inr has_time \<Rightarrow>
          if \<not> has_time then Inr acc
          else
            (case py_in ''type'' log_dict of
               Inl e \<Rightarrow> Inl e
             | Inr has_type \<Rightarrow>
                 if \<not> has_type then Inr acc
                 else
                   (case py_getitem log_dict ''time'' of
                      Inl e \<Rightarrow> Inl e
                    | Inr log_datetime \<Rightarrow>
                   (case py_getitem log_dict ''type'' of
                      Inl e \<Rightarrow> Inl e
                    | Inr log_type \<Rightarrow>
                   (case py_delitem log_dict ''time'' of
                      Inl e \<Rightarrow> Inl e
                    | Inr d1 \<Rightarrow>
                   (case py_delitem (JObj d1) ''type'' of
                      Inl e \<Rightarrow> Inl e
                    | Inr d2 \<Rightarrow>
                        (case acc of
                           (messages, metrics, plots) \<Rightarrow>
                             if log_type = JStr LogType_MESSAGE then
                               Inr (messages @
                                      [JObj (dict_of_pairs
                                         [(''time'', log_datetime),
                                          (''message'', dict_get d2 ''message'')])],
                                    metrics, plots)
                             else if log_type = JStr LogType_METRICS then
                               Inr (messages,
                                    metrics @ [JObj (dict_of_pairs ((''time'', log_datetime) # d2))],
                                    plots)
                             else if log_type = JStr LogType_PLOT then
                               Inr (messages, metrics, plots @ [JObj (dict_of_pairs d2)])
                             else Inr acc)))))))"

fun parse_logs_loop :: "parsed \<Rightarrow> string list \<Rightarrow> py_error + parsed" where
  "parse_logs_loop acc [] = Inr acc"
| "parse_logs_loop acc (log_line # rest) =
     (case parse_logs_step acc log_line of
        Inl e \<Rightarrow> Inl e
      | Inr acc' \<Rightarrow> parse_logs_loop acc' rest)"

definition parse_logs :: "string list \<Rightarrow> py_error + parsed" where
  "parse_logs log_lines = parse_logs_loop ([], [], []) log_lines"

subsection \<open>The batch decoder as the specification words it\<close>

text \<open>
  The specification describes \<^verbatim>\<open>parse_logs\<close> as one scan that classifies each decoded
  line by its type tag, drops a line without both \<^verbatim>\<open>type\<close> and \<^verbatim>\<open>time\<close> or
  with an unknown tag, and keeps the input order within each of the three results. The
  definitions below say that, for comparison with the loop above; \<open>raises\<close> singles out
  the decoded lines on which the loop raises instead.
\<close>

definition payload :: "pydict \<Rightarrow> pydict" where
  "payload d = filter (\<lambda>kv. fst kv \<noteq> ''time'' \<and> fst kv \<noteq> ''type'') d"

definition tagged :: "string \<Rightarrow> json \<Rightarrow> (json \<times> pydict) option" where
  "tagged tag v =
     (case v of
        JObj d \<Rightarrow>
          (case map_of d ''time'' of
             None \<Rightarrow> None
           | Some t \<Rightarrow>
               (case map_of d ''type'' of
                  None \<Rightarrow> None
                | Some ty \<Rightarrow> if ty = JStr tag then Some (t, payload d) else None))
      | _ \<Rightarrow> None)"

definition message_of :: "json \<Rightarrow> json option" where
  "message_of v =
     map_option (\<lambda>tp. JObj [(''time'', fst tp), (''message'', dict_get (snd tp) ''message'')])
       (tagged LogType_MESSAGE v)"

definition metrics_of :: "json \<Rightarrow> json option" where
  "metrics_of v = map_option (\<lambda>tp. JObj ((''time'', fst tp) # snd tp)) (tagged LogType_METRICS v)"

definition plot_of :: "json \<Rightarrow> json option" where
  "plot_of v = map_option (\<lambda>tp. JObj (snd tp)) (tagged LogType_PLOT v)"

definition decode_batch :: "string list \<Rightarrow> parsed" where
  "decode_batch log_lines =
     (let vs = map parse_log_line log_lines
      in (List.map_filter message_of vs, List.map_filter metrics_of vs, List.map_filter plot_of vs))"

definition raises :: "json \<Rightarrow> bool" where
  "raises v =
     (case v of
        JObj d \<Rightarrow> False
      | JArr xs \<Rightarrow> List.member xs (JStr ''time'') \<and> List.member xs (JStr ''type'')
      | JStr s \<Rightarrow> is_substring ''time'' s \<and> is_substring ''type'' s
      | _ \<Rightarrow> True)"

section \<open>\<^verbatim>\<open>scripts/start_worker.py\<close>: the worker supervisor\<close>

subsection \<open>The install loop\<close>

text \<open>
  What the loop does to the outside world, in order: \<^verbatim>\<open>os.system(install_command)\<close>,
  \<^verbatim>\<open>print(...)\<close> and \<^verbatim>\<open>time.sleep(3)\<close>.
\<close>

datatype event =
    System string
  | Print string
  | Sleep nat

definition install_message :: "string \<Rightarrow> string" where
  "install_message install_command =
     ''Install command gave non-zero exit code: '' @ [dquote] @ install_command @ [dquote]"

text \<open>
  \<^verbatim>\<open>for i in range(10): ... else: raise Exception(...)\<close>. The loop runs
  \<^verbatim>\<open>os.system\<close> once in each iteration, so \<open>exit_codes i\<close> is the exit status of
  the \<open>i\<close>-th run of the command. The result is the exception raised, if any, and the
  trace of events.
\<close>

fun install_loop ::
  "string \<Rightarrow> (nat \<Rightarrow> int) \<Rightarrow> nat list \<Rightarrow> event list \<Rightarrow> (py_error + unit) \<times> event list" where
  "install_loop install_command exit_codes [] trace =
     (Inl (Exception (install_message install_command)), trace)"
| "install_loop install_command exit_codes (i # rest) trace =
     (let exit_code = exit_codes i;
          trace1 = trace @ [System install_command]
      in if exit_code \<noteq> 0
         then install_loop install_command exit_codes rest
                (trace1 @ [Print (install_message install_command), Sleep 3])
         else (Inr (), trace1))"

definition run_install :: "string \<Rightarrow> (nat \<Rightarrow> int) \<Rightarrow> (py_error + unit) \<times> event list" where
  "run_install install_command exit_codes = install_loop install_command exit_codes [0..<10] []"

text \<open>The number of runs of the command, and the sleeps, in a trace.\<close>

fun attempts :: "event list \<Rightarrow> nat" where
  "attempts [] = 0"
| "attempts (System c # es) = Suc (attempts es)"
| "attempts (e # es) = attempts es"

fun sleeps :: "event list \<Rightarrow> nat list" where
  "sleeps [] = []"
| "sleeps (Sleep n # es) = n # sleeps es"
| "sleeps (e # es) = sleeps es"

subsection \<open>\<^verbatim>\<open>start_worker\<close> and \<^verbatim>\<open>stop_worker\<close>\<close>

text \<open>
  The constants of \<^verbatim>\<open>singa_auto.constants.ServiceType\<close> the script compares with. The
  class is defined in another module, so its three values are parameters.
\<close>

record ServiceType =
  TRAIN :: string
  INFERENCE :: string
  ADVISOR :: string

text \<open>
  The worker classes are collaborators. A worker object is identified by its class and
  constructor arguments; the calls the script makes on workers are recorded in order.
\<close>

datatype worker =
    TrainWorker string string
  | InferenceWorker string string
  | AdvisorWorker string

datatype call =
    Construct worker
  | Start worker
  | Stop worker

text \<open>The module-level variable \<^verbatim>\<open>worker\<close> (initially \<^verbatim>\<open>None\<close>) and the calls made.\<close>

record supervisor =
  worker :: "worker option"
  calls :: "call list"

definition initial :: supervisor where
  "initial = \<lparr>worker = None, calls = []\<rparr>"

text \<open>
  What each of the three branches does with the worker it names: construct it, bind it to
  the module-level variable, call its \<^verbatim>\<open>start()\<close>.
\<close>

definition launch :: "worker \<Rightarrow> supervisor \<Rightarrow> supervisor" where
  "launch w S = S\<lparr>worker := Some w, calls := calls S @ [Construct w, Start w]\<rparr>"

text \<open>
  \<^verbatim>\<open>start_worker\<close>: the result is the exception raised, if any, and the state after
  the call.
\<close>

definition start_worker ::
  "ServiceType \<Rightarrow> string \<Rightarrow> string \<Rightarrow> string \<Rightarrow> supervisor \<Rightarrow> (py_error + unit) \<times> supervisor" where
  "start_worker T service_id service_type container_id S =
     (if service_type = TRAIN T then
        (Inr (), launch (TrainWorker service_id container_id) S)
      else if service_type = INFERENCE T then
        (Inr (), launch (InferenceWorker service_id container_id) S)
      else if service_type = ADVISOR T then
        (Inr (), launch (AdvisorWorker service_id) S)
      else (Inl (Exception (''Invalid service type: '' @ service_type)), S))"

text \<open>\<^verbatim>\<open>stop_worker\<close>: calls \<^verbatim>\<open>worker.stop()\<close> unless the variable is \<^verbatim>\<open>None\<close>.\<close>

definition stop_worker :: "supervisor \<Rightarrow> supervisor" where
  "stop_worker S =
     (case worker S of
        None \<Rightarrow> S
      | Some w \<Rightarrow> S\<lparr>calls := calls S @ [Stop w]\<rparr>)"

section \<open>The json library: decoding what was encoded\<close>

lemma lt16_cases:
  assumes "k < (16::nat)"
  shows "k \<in> {0, 1, 2, 3, 4, 5, 6, 7, 8, 9, 10, 11, 12, 13, 14, 15}"
  using assms by simp arith

lemma hexval_digit_char: "k < 16 \<Longrightarrow> hexval (digit_char k) = Some k"
  using lt16_cases [of k] by (auto simp: hexval_def digit_char_def)

lemma digit_char_dec:
  assumes "k < 10"
  shows "is_digit (digit_char k)" and "digit_val (digit_char k) = k"
    and "digit_char k = CHR ''0'' \<longleftrightarrow> k = 0" and "digit_char k \<noteq> CHR ''-''"
proof -
  from assms have "k < 16" by simp
  from lt16_cases [OF this] assms
  show "is_digit (digit_char k)" and "digit_val (digit_char k) = k"
    and "digit_char k = CHR ''0'' \<longleftrightarrow> k = 0" and "digit_char k \<noteq> CHR ''-''"
    by (auto simp: is_digit_def digit_val_def digit_char_def)
qed

lemma show_nat_digits: "list_all is_digit (show_nat n)"
proof (induction n rule: show_nat.induct)
  case (1 n)
  show ?case
  proof (cases "n < 10")
    case True
    then show ?thesis by (subst show_nat.simps) (simp add: digit_char_dec)
  next
    case False
    with 1 show ?thesis
      by (subst show_nat.simps) (simp add: digit_char_dec)
  qed
qed

lemma show_nat_nonempty: "show_nat n \<noteq> []"
  by (subst show_nat.simps) simp

lemma show_nat_hd: "hd (show_nat n) = CHR ''0'' \<longleftrightarrow> n = 0"
proof (induction n rule: show_nat.induct)
  case (1 n)
  show ?case
  proof (cases "n < 10")
    case True
    then show ?thesis by (subst show_nat.simps) (simp add: digit_char_dec)
  next
    case False
    then have "n div 10 \<noteq> 0" by simp
    with False 1 show ?thesis
      by (subst show_nat.simps) (simp add: show_nat_nonempty)
  qed
qed

lemma nat_of_digits_snoc: "nat_of_digits (ds @ [c]) = 10 * nat_of_digits ds + digit_val c"
  by (simp add: nat_of_digits_def)

lemma nat_of_digits_show_nat: "nat_of_digits (show_nat n) = n"
proof (induction n rule: show_nat.induct)
  case (1 n)
  show ?case
  proof (cases "n < 10")
    case True
    then show ?thesis by (subst show_nat.simps) (simp add: nat_of_digits_def digit_char_dec)
  next
    case False
    with 1 show ?thesis
      by (subst show_nat.simps) (simp add: nat_of_digits_snoc digit_char_dec)
  qed
qed

lemma hexval_zero: "hexval (CHR ''0'') = Some 0"
  by (simp add: hexval_def)

lemma hex4_byte:
  assumes "n < 256"
  shows "hex4 (CHR ''0'') (CHR ''0'') (digit_char (n div 16)) (digit_char (n mod 16)) = Some n"
proof -
  have "n div 16 < 16" using assms by simp
  moreover have "n mod 16 < 16" by simp
  ultimately show ?thesis
    by (simp add: hex4_def hexval_zero hexval_digit_char)
qed

lemma scanstring_esc_char: "scanstring (esc_char c @ rest) = cons_char c (scanstring rest)"
proof -
  have byte: "hex4 (CHR ''0'') (CHR ''0'') (digit_char (of_char c div 16)) (digit_char (of_char c mod 16))
     = Some (of_char c)"
    by (rule hex4_byte) simp
  show ?thesis
    by (simp add: esc_char_def dquote_def backslash_def unescape_def byte)
qed

lemma scanstring_encode: "scanstring (concat (map esc_char s) @ dquote # r) = Some (s, r)"
  by (induction s) (simp_all add: scanstring_esc_char cons_char_def)

lemma delimited_head:
  assumes "delimited (c # r)"
  shows "\<not> is_digit c" and "c \<noteq> CHR ''.''" and "c \<noteq> CHR ''e''" and "c \<noteq> CHR ''E''"
    and "c \<noteq> CHR ''+''" and "c \<noteq> CHR ''-''" and "\<not> is_ws c"
  using assms by (auto simp: delimited_def is_digit_def is_ws_def)

lemma span_digits:
  assumes "delimited r"
  shows "takeWhile is_digit (xs @ r) = takeWhile is_digit xs"
    and "dropWhile is_digit (xs @ r) = dropWhile is_digit xs @ r"
proof -
  have r: "takeWhile is_digit r = [] \<and> dropWhile is_digit r = r"
    using assms by (cases r) (simp_all add: delimited_head)
  show "takeWhile is_digit (xs @ r) = takeWhile is_digit xs"
    by (induction xs) (simp_all add: r)
  show "dropWhile is_digit (xs @ r) = dropWhile is_digit xs @ r"
    by (induction xs) (simp_all add: r)
qed

lemma scan_intpart_append:
  assumes "scan_intpart s = Some (ip, r0)" and "delimited r"
  shows "scan_intpart (s @ r) = Some (ip, r0 @ r)"
  using assms by (cases s) (auto simp: scan_intpart_def span_digits split: if_splits)

lemma scan_frac_append:
  assumes "delimited r"
  shows "scan_frac (s @ r) = (fst (scan_frac s), snd (scan_frac s) @ r)"
proof (cases s)
  case Nil
  with assms show ?thesis
    by (cases r) (auto simp: scan_frac_def delimited_head split: list.splits)
next
  case (Cons d s')
  show ?thesis
  proof (cases s')
    case Nil
    with Cons assms show ?thesis
      by (cases r) (auto simp: scan_frac_def delimited_head)
  next
    case (Cons e s'')
    with \<open>s = d # s'\<close> assms show ?thesis
      by (simp add: scan_frac_def span_digits)
  qed
qed

lemma scan_sign_append:
  assumes "delimited r"
  shows "scan_sign (s @ r) = (fst (scan_sign s), snd (scan_sign s) @ r)"
  using assms
  by (cases s; cases r) (auto simp: scan_sign_def delimited_head)

lemma scan_exp_append:
  assumes "delimited r"
  shows "scan_exp (s @ r) = (fst (scan_exp s), snd (scan_exp s) @ r)"
proof (cases s)
  case Nil
  with assms show ?thesis
    by (cases r) (auto simp: scan_exp_def delimited_head)
next
  case (Cons e s')
  show ?thesis
  proof (cases "snd (scan_sign s')")
    case Nil
    with Cons assms show ?thesis
      by (cases r) (auto simp: scan_exp_def scan_sign_append delimited_head)
  next
    case (Cons d ds)
    with \<open>s = e # s'\<close> assms show ?thesis
      by (simp add: scan_exp_def scan_sign_append span_digits)
  qed
qed

lemma scan_magnitude_append:
  assumes "scan_magnitude neg s = Some (v, r0)" and "delimited r"
  shows "scan_magnitude neg (s @ r) = Some (v, r0 @ r)"
proof -
  from assms(1) obtain ip s2 where ip: "scan_intpart s = Some (ip, s2)"
    by (auto simp: scan_magnitude_def split: option.splits)
  from assms(1) show ?thesis
    by (auto simp: scan_magnitude_def ip scan_intpart_append [OF ip assms(2)]
        scan_frac_append [OF assms(2)] scan_exp_append [OF assms(2)]
        Let_def split_beta split: if_splits)
qed

lemma scan_number_append:
  assumes "scan_number s = Some (v, r0)" and "delimited r"
  shows "scan_number (s @ r) = Some (v, r0 @ r)"
proof (cases s)
  case Nil
  with assms show ?thesis by (simp add: scan_number_def)
next
  case (Cons c cs)
  show ?thesis
  proof (cases "c = CHR ''-''")
    case True
    with assms Cons have "scan_magnitude True cs = Some (v, r0)"
      by (simp add: scan_number_def)
    from scan_magnitude_append [OF this assms(2)] True Cons show ?thesis
      by (simp add: scan_number_def)
  next
    case False
    with assms Cons have "scan_magnitude False s = Some (v, r0)"
      by (simp add: scan_number_def)
    from scan_magnitude_append [OF this assms(2)] False Cons show ?thesis
      by (simp add: scan_number_def)
  qed
qed

lemma scan_number_show_int: "scan_number (show_int i) = Some (JInt i, [])"
proof -
  have ip: "scan_intpart (show_nat n) = Some (show_nat n, [])" for n
  proof (cases "n = 0")
    case True
    have "show_nat 0 = ''0''"
      by (subst show_nat.simps) (simp add: digit_char_def)
    with True show ?thesis
      by (simp add: scan_intpart_def is_digit_def)
  next
    case False
    obtain c cs where cs: "show_nat n = c # cs"
      using show_nat_nonempty [of n] by (cases "show_nat n") auto
    have "list_all is_digit (c # cs)"
      using show_nat_digits [of n] cs by simp
    moreover have "c \<noteq> CHR ''0''"
      using show_nat_hd [of n] cs False by simp
    ultimately show ?thesis
      by (simp add: scan_intpart_def cs list_all_iff)
  qed
  have mag: "scan_magnitude neg (show_nat n) =
      Some (JInt (if neg then - int n else int n), [])" for neg n
    by (simp add: scan_magnitude_def ip scan_frac_def scan_exp_def nat_of_digits_show_nat)
  show ?thesis
  proof (cases "i < 0")
    case True
    then show ?thesis by (simp add: show_int_def scan_number_def mag)
  next
    case False
    obtain c cs where cs: "show_nat (nat i) = c # cs"
      using show_nat_nonempty [of "nat i"] by (cases "show_nat (nat i)") auto
    have "is_digit c"
      using show_nat_digits [of "nat i"] cs by simp
    then have "c \<noteq> CHR ''-''"
      by (auto simp: is_digit_def)
    with False mag [of False "nat i"] show ?thesis
      by (simp add: show_int_def scan_number_def cs)
  qed
qed

lemma scan_number_head:
  assumes "scan_number s = Some (v, r0)"
  obtains c cs where "s = c # cs" and "c = CHR ''-'' \<or> is_digit c"
proof (cases s)
  case Nil
  with assms show ?thesis by (simp add: scan_number_def)
next
  case (Cons c cs)
  with assms have "c = CHR ''-'' \<or> is_digit c"
    by (auto simp: scan_number_def scan_magnitude_def scan_intpart_def split: if_splits)
  with Cons that show ?thesis by blast
qed

lemma scan_once_number:
  assumes "scan_number s = Some (v, [])" and "delimited r"
  shows "scan_once (Suc n) (s @ r) = Some (v, r)"
proof -
  from assms(1) obtain c cs where s: "s = c # cs" and c: "c = CHR ''-'' \<or> is_digit c"
    by (rule scan_number_head)
  from c have "c \<noteq> dquote" "c \<noteq> CHR ''{''" "c \<noteq> CHR ''[''" "c \<noteq> CHR ''n''"
      "c \<noteq> CHR ''t''" "c \<noteq> CHR ''f''"
    by (auto simp: is_digit_def dquote_def)
  moreover have "scan_number (c # cs @ r) = Some (v, r)"
    using scan_number_append [OF assms] by (simp add: s)
  ultimately show ?thesis
    by (simp add: s)
qed

lemma opens_value_number:
  assumes "c = CHR ''-'' \<or> is_digit c"
  shows "opens_value c"
  using assms by (auto simp: opens_value_def is_ws_def is_digit_def)

lemma opens_value_simps:
  "opens_value dquote" "opens_value (CHR ''n'')" "opens_value (CHR ''t'')"
  "opens_value (CHR ''f'')" "opens_value (CHR ''['')" "opens_value (CHR ''{'')"
  by (simp_all add: opens_value_def is_ws_def dquote_def)

lemma json_dumps_head:
  assumes "wf_json v"
  shows "\<exists>c cs. json_dumps v = c # cs \<and> opens_value c"
proof (cases v)
  case (JInt i)
  from scan_number_show_int [of i] obtain c cs where "show_int i = c # cs" "c = CHR ''-'' \<or> is_digit c"
    by (rule scan_number_head)
  with JInt show ?thesis
    by (simp add: opens_value_number)
next
  case (JFloat f)
  with assms have "scan_number f = Some (JFloat f, [])" by simp
  then obtain c cs where "f = c # cs" "c = CHR ''-'' \<or> is_digit c"
    by (rule scan_number_head)
  with JFloat show ?thesis
    by (simp add: opens_value_number)
next
  case (JBool b)
  then show ?thesis by (cases b) (simp_all add: opens_value_simps)
qed (simp_all add: opens_value_simps encode_str_def)

lemma skip_ws_json_dumps:
  assumes "wf_json v"
  shows "skip_ws (json_dumps v @ r) = json_dumps v @ r"
proof -
  from json_dumps_head [OF assms] obtain c cs where "json_dumps v = c # cs" "opens_value c"
    by blast
  then show ?thesis
    by (simp add: skip_ws_def opens_value_def)
qed

lemma skip_ws_simps:
  "skip_ws (CHR '' '' # s) = skip_ws s"
  "skip_ws (CHR '','' # s) = CHR '','' # s"
  "skip_ws (CHR '':'' # s) = CHR '':'' # s"
  "skip_ws (CHR '']'' # s) = CHR '']'' # s"
  "skip_ws (CHR ''}'' # s) = CHR ''}'' # s"
  "skip_ws (dquote # s) = dquote # s"
  by (simp_all add: skip_ws_def is_ws_def dquote_def)

lemma delimited_simps:
  "delimited []"
  "delimited (CHR '','' # s)"
  "delimited (CHR '']'' # s)"
  "delimited (CHR ''}'' # s)"
  by (simp_all add: delimited_def)

lemma scan_items_join:
  assumes "\<And>x n r. x \<in> set xs \<Longrightarrow> length (json_dumps x) < n \<Longrightarrow> delimited r \<Longrightarrow>
             scan_once n (json_dumps x @ r) = Some (x, r)"
    and "\<forall>x \<in> set xs. wf_json x"
    and "xs \<noteq> []"
    and "length (join '', '' (map json_dumps xs)) + 2 \<le> m"
  shows "scan_items m (join '', '' (map json_dumps xs) @ CHR '']'' # r) = Some (xs, r)"
  using assms
proof (induction xs arbitrary: m)
  case Nil
  then show ?case by simp
next
  case (Cons x xs)
  from Cons.prems(4) obtain m' where m: "m = Suc m'"
    by (cases m) auto
  show ?case
  proof (cases xs)
    case Nil
    from Cons.prems(4) have "length (json_dumps x) < m'"
      by (simp add: m Nil)
    then have "scan_once m' (json_dumps x @ CHR '']'' # r) = Some (x, CHR '']'' # r)"
      using Cons.prems(1) by (simp add: delimited_simps)
    then show ?thesis
      by (simp add: m Nil skip_ws_simps)
  next
    case (Cons y ys)
    let ?rest = "join '', '' (map json_dumps (y # ys)) @ CHR '']'' # r"
    from Cons.prems(4) have lx: "length (json_dumps x) < m'"
      and lr: "length (join '', '' (map json_dumps xs)) + 2 \<le> m'"
      by (simp_all add: m Cons)
    have 1: "scan_once m' (json_dumps x @ CHR '','' # CHR '' '' # ?rest) = Some (x, CHR '','' # CHR '' '' # ?rest)"
      using Cons.prems(1) lx by (simp add: delimited_simps)
    have "scan_items m' (join '', '' (map json_dumps xs) @ CHR '']'' # r) = Some (xs, r)"
      using Cons.prems(1,2) lr by (intro Cons.IH) (simp_all add: Cons)
    then have 2: "scan_items m' ?rest = Some (xs, r)"
      by (simp add: Cons)
    have wy: "wf_json y"
      using Cons.prems(2) Cons by simp
    have 3: "skip_ws ?rest = ?rest"
    proof (cases ys)
      case Nil
      then show ?thesis by (simp add: skip_ws_json_dumps [OF wy])
    next
      case (Cons z zs)
      then show ?thesis
        using skip_ws_json_dumps [OF wy, of "'', '' @ join '', '' (map json_dumps (z # zs)) @ CHR '']'' # r"]
        by simp
    qed
    show ?thesis
      using 1 2 3 by (simp add: m Cons skip_ws_simps)
  qed
qed

lemma join_pairs_head:
  assumes "d \<noteq> []"
  shows "join '', '' (map (\<lambda>kv. encode_str (fst kv) @ '': '' @ json_dumps (snd kv)) d) =
    dquote # tl (join '', '' (map (\<lambda>kv. encode_str (fst kv) @ '': '' @ json_dumps (snd kv)) d))"
proof (cases d)
  case Nil
  with assms show ?thesis by simp
next
  case (Cons kv d')
  then show ?thesis by (cases d') (simp_all add: encode_str_def)
qed

lemma scan_pairs_join:
  fixes d :: "(string \<times> json) list"
  defines "enc \<equiv> (\<lambda>kv. encode_str (fst kv) @ '': '' @ json_dumps (snd kv))"
  assumes "\<And>kv n r. kv \<in> set d \<Longrightarrow> length (json_dumps (snd kv)) < n \<Longrightarrow> delimited r \<Longrightarrow>
             scan_once n (json_dumps (snd kv) @ r) = Some (snd kv, r)"
    and "\<forall>kv \<in> set d. wf_json (snd kv)"
    and "d \<noteq> []"
    and "length (join '', '' (map enc d)) + 2 \<le> m"
  shows "scan_pairs m (tl (join '', '' (map enc d)) @ CHR ''}'' # r) = Some (d, r)"
  using assms(2-)
proof (induction d arbitrary: m)
  case Nil
  then show ?case by simp
next
  case (Cons kv d)
  from Cons.prems(4) obtain m' where m: "m = Suc m'"
    by (cases m) auto
  have wv: "wf_json (snd kv)"
    using Cons.prems(2) by simp
  have enc_kv: "enc kv = dquote # concat (map esc_char (fst kv)) @ dquote # CHR '':'' # CHR '' '' # json_dumps (snd kv)"
    by (simp add: enc_def encode_str_def)
  show ?case
  proof (cases d)
    case Nil
    from Cons.prems(4) have "length (json_dumps (snd kv)) < m'"
      by (simp add: m Nil enc_kv)
    then have 1: "scan_once m' (json_dumps (snd kv) @ CHR ''}'' # r) = Some (snd kv, CHR ''}'' # r)"
      using Cons.prems(1) by (simp add: delimited_simps)
    have 2: "skip_ws (json_dumps (snd kv) @ CHR ''}'' # r) = json_dumps (snd kv) @ CHR ''}'' # r"
      by (rule skip_ws_json_dumps [OF wv])
    show ?thesis
      by (simp add: m Nil enc_kv scanstring_encode skip_ws_simps 1 2)
  next
    case (Cons kv2 d2)
    let ?tail = "tl (join '', '' (map enc d)) @ CHR ''}'' # r"
    have jd: "join '', '' (map enc d) = dquote # tl (join '', '' (map enc d))"
      unfolding enc_def by (rule join_pairs_head) (simp add: Cons)
    from Cons.prems(4) have lx: "length (json_dumps (snd kv)) < m'"
      and lr: "length (join '', '' (map enc d)) + 2 \<le> m'"
      by (simp_all add: m Cons enc_kv)
    have 1: "scan_once m' (json_dumps (snd kv) @ CHR '','' # CHR '' '' # dquote # ?tail)
        = Some (snd kv, CHR '','' # CHR '' '' # dquote # ?tail)"
      using Cons.prems(1) lx by (simp add: delimited_simps)
    have 2: "skip_ws (json_dumps (snd kv) @ CHR '','' # CHR '' '' # dquote # ?tail)
        = json_dumps (snd kv) @ CHR '','' # CHR '' '' # dquote # ?tail"
      by (rule skip_ws_json_dumps [OF wv])
    have 3: "scan_pairs m' ?tail = Some (d, r)"
      using Cons.prems(1,2) lr by (intro Cons.IH) (simp_all add: Cons)
    have whole: "tl (join '', '' (map enc (kv # d))) @ CHR ''}'' # r =
      concat (map esc_char (fst kv)) @ dquote # CHR '':'' # CHR '' '' # json_dumps (snd kv)
        @ CHR '','' # CHR '' '' # dquote # ?tail"
      using jd by (simp add: Cons enc_kv)
    show ?thesis
      unfolding whole
      by (simp add: m scanstring_encode skip_ws_simps 1 2 3)
  qed
qed

lemma dict_set_fresh: "k \<notin> fst ` set d \<Longrightarrow> dict_set d k v = d @ [(k, v)]"
  by (induction d) auto

lemma foldl_dict_set_distinct:
  "distinct (map fst (acc @ ps)) \<Longrightarrow>
     foldl (\<lambda>d kv. dict_set d (fst kv) (snd kv)) acc ps = acc @ ps"
proof (induction ps arbitrary: acc)
  case Nil
  then show ?case by simp
next
  case (Cons p ps)
  from Cons.prems have "fst p \<notin> fst ` set acc" by auto
  then have "dict_set acc (fst p) (snd p) = acc @ [p]"
    by (simp add: dict_set_fresh)
  moreover from Cons.prems have "distinct (map fst ((acc @ [p]) @ ps))" by simp
  ultimately show ?case
    using Cons.IH [of "acc @ [p]"] by simp
qed

lemma dict_of_pairs_distinct: "distinct (map fst d) \<Longrightarrow> dict_of_pairs d = d"
  using foldl_dict_set_distinct [of "[]" d] by (simp add: dict_of_pairs_def)

lemma scan_once_json_dumps:
  assumes "wf_json v" and "length (json_dumps v) < n" and "delimited r"
  shows "scan_once n (json_dumps v @ r) = Some (v, r)"
  using assms
proof (induction v arbitrary: n r)
  case JNull
  then obtain n' where "n = Suc n'" by (cases n) auto
  then show ?case by (simp add: dquote_def)
next
  case (JBool b)
  then obtain n' where "n = Suc n'" by (cases n) auto
  then show ?case by (cases b) (simp_all add: dquote_def)
next
  case (JInt i)
  then obtain n' where n: "n = Suc n'" by (cases n) auto
  show ?case
    unfolding n json_dumps.simps
    by (rule scan_once_number [OF scan_number_show_int JInt.prems(3)])
next
  case (JFloat f)
  then obtain n' where n: "n = Suc n'" by (cases n) auto
  from JFloat.prems(1) have "scan_number f = Some (JFloat f, [])" by simp
  then show ?case
    unfolding n json_dumps.simps
    by (rule scan_once_number [OF _ JFloat.prems(3)])
next
  case (JStr s)
  then obtain n' where "n = Suc n'" by (cases n) auto
  then show ?case
    by (simp add: encode_str_def scanstring_encode)
next
  case (JArr xs)
  then obtain n' where n: "n = Suc n'" by (cases n) auto
  show ?case
  proof (cases xs)
    case Nil
    then show ?thesis
      by (simp add: n dquote_def skip_ws_simps)
  next
    case (Cons x xs')
    let ?body = "join '', '' (map json_dumps xs) @ CHR '']'' # r"
    have wx: "wf_json x"
      using JArr.prems(1) Cons by simp
    from json_dumps_head [OF wx] obtain c cs where c: "json_dumps x = c # cs" "opens_value c"
      by blast
    have "\<exists>t. ?body = c # t"
      using c(1) Cons by (cases xs') simp_all
    then obtain t where body: "?body = c # t" ..
    have sk: "skip_ws ?body = ?body"
      using c(2) by (simp add: body skip_ws_def opens_value_def)
    have items: "scan_items n' ?body = Some (xs, r)"
    proof (rule scan_items_join)
      fix y m q
      assume "y \<in> set xs" "length (json_dumps y) < m" "delimited q"
      with JArr.IH [of y m q] JArr.prems(1)
      show "scan_once m (json_dumps y @ q) = Some (y, q)" by simp
    next
      show "\<forall>x \<in> set xs. wf_json x" using JArr.prems(1) by simp
      show "xs \<noteq> []" by (simp add: Cons)
      show "length (join '', '' (map json_dumps xs)) + 2 \<le> n'"
        using JArr.prems(2) by (simp add: n)
    qed
    have "c \<noteq> CHR '']''"
      using c(2) by (simp add: opens_value_def)
    then have "scan_once (Suc n') (CHR ''['' # ?body) = Some (JArr xs, r)"
      using items by (simp add: dquote_def sk) (simp add: body)
    then show ?thesis
      by (simp add: n)
  qed
next
  case (JObj d)
  then obtain n' where n: "n = Suc n'" by (cases n) auto
  show ?case
  proof (cases d)
    case Nil
    then show ?thesis
      by (simp add: n dquote_def skip_ws_simps)
  next
    case (Cons kv d')
    let ?enc = "\<lambda>kv. encode_str (fst kv) @ '': '' @ json_dumps (snd kv)"
    let ?tail = "tl (join '', '' (map ?enc d)) @ CHR ''}'' # r"
    have jd: "join '', '' (map ?enc d) = dquote # tl (join '', '' (map ?enc d))"
      by (rule join_pairs_head) (simp add: Cons)
    have pairs: "scan_pairs n' ?tail = Some (d, r)"
    proof (rule scan_pairs_join)
      fix kv m q
      assume "kv \<in> set d" "length (json_dumps (snd kv)) < m" "delimited q"
      with JObj.IH [of kv "snd kv" m q] JObj.prems(1)
      show "scan_once m (json_dumps (snd kv) @ q) = Some (snd kv, q)"
        by (cases kv) auto
    next
      show "\<forall>kv \<in> set d. wf_json (snd kv)" using JObj.prems(1) by simp
      show "d \<noteq> []" by (simp add: Cons)
      show "length (join '', '' (map ?enc d)) + 2 \<le> n'"
        using JObj.prems(2) by (simp add: n)
    qed
    have dd: "dict_of_pairs d = d"
      using JObj.prems(1) by (simp add: dict_of_pairs_distinct)
    have whole: "json_dumps (JObj d) @ r = CHR ''{'' # dquote # ?tail"
      using jd by simp
    have ne: "dquote \<noteq> CHR ''}''" "CHR ''{'' \<noteq> dquote"
      by (simp_all add: dquote_def)
    have "scan_once (Suc n') (CHR ''{'' # dquote # ?tail) = Some (JObj d, r)"
      using pairs by (simp add: skip_ws_simps ne dd)
    then show ?thesis
      unfolding n whole .
  qed
qed

text \<open>Decoding the serialisation of a value gives the value back.\<close>

theorem json_loads_dumps:
  assumes "wf_json v"
  shows "json_loads (json_dumps v) = Some v"
proof -
  have "skip_ws (json_dumps v) = json_dumps v"
    using skip_ws_json_dumps [OF assms, of "[]"] by simp
  moreover have "scan_once (2 * length (json_dumps v) + 1) (json_dumps v) = Some (v, [])"
    using scan_once_json_dumps [OF assms, of "2 * length (json_dumps v) + 1" "[]"]
    by (simp add: delimited_simps)
  ultimately show ?thesis
    by (simp add: json_loads_def skip_ws_def)
qed

subsection \<open>The bound on nested calls is never reached\<close>

lemma skip_ws_length: "length (skip_ws s) \<le> length s"
  by (simp add: skip_ws_def length_dropWhile_le)

lemma cons_char_SomeD:
  assumes "cons_char c res = Some (x, r)"
  obtains x' where "res = Some (x', r)"
  using assms by (cases res) (auto simp: cons_char_def)

lemma scanstring_length: "scanstring s = Some (x, r) \<Longrightarrow> length r < length s"
proof (induction s arbitrary: x rule: length_induct)
  case (1 s)
  have IH: "length r < length t" if "length t < length s" and "scanstring t = Some (y, r)" for t y
    using "1.IH" that by blast
  from "1.prems" obtain c cs where s: "s = c # cs"
    by (cases s) auto
  show ?case
  proof (cases "c = dquote")
    case True
    with "1.prems" show ?thesis by (simp add: s)
  next
    case nq: False
    show ?thesis
    proof (cases "c = backslash")
      case False
      with nq "1.prems" obtain x' where "scanstring cs = Some (x', r)"
        by (auto simp: s split: if_splits elim: cons_char_SomeD)
      then have "length r < length cs"
        by (intro IH) (simp_all add: s)
      then show ?thesis by (simp add: s)
    next
      case True
      with nq "1.prems" obtain e t where cs: "cs = e # t"
        by (cases cs) (auto simp: s)
      show ?thesis
      proof (cases "e = CHR ''u''")
        case u: True
        with nq True cs "1.prems" have "\<exists>a b y z t' (n::nat). t = a # b # y # z # t' \<and>
            cons_char (char_of n) (scanstring t') = Some (x, r)"
          by (auto simp: s split: list.splits option.splits if_splits)
        then obtain a b y z t' and n :: nat where t: "t = a # b # y # z # t'"
          and "cons_char (char_of n) (scanstring t') = Some (x, r)"
          by blast
        then obtain x' where "scanstring t' = Some (x', r)"
          by (auto elim: cons_char_SomeD)
        then have "length r < length t'"
          by (intro IH) (simp_all add: s cs t)
        then show ?thesis by (simp add: s cs t)
      next
        case nu: False
        with nq True cs "1.prems" obtain ch where
          "cons_char ch (scanstring t) = Some (x, r)"
          by (auto simp: s split: option.splits)
        then obtain x' where "scanstring t = Some (x', r)"
          by (auto elim: cons_char_SomeD)
        then have "length r < length t"
          by (intro IH) (simp_all add: s cs)
        then show ?thesis by (simp add: s cs)
      qed
    qed
  qed
qed

lemma scan_intpart_length: "scan_intpart s = Some (ip, r) \<Longrightarrow> length r < length s"
  by (cases s) (auto simp: scan_intpart_def less_Suc_eq_le length_dropWhile_le split: if_splits)

lemma scan_frac_length: "length (snd (scan_frac s)) \<le> length s"
  by (auto simp: scan_frac_def le_SucI length_dropWhile_le split: list.splits)

lemma scan_sign_length: "length (snd (scan_sign s)) \<le> length s"
  by (auto simp: scan_sign_def split: list.splits)

lemma scan_exp_length: "length (snd (scan_exp s)) \<le> length s"
proof (cases s)
  case Nil
  then show ?thesis by (simp add: scan_exp_def)
next
  case (Cons e r)
  show ?thesis
  proof (cases "snd (scan_sign r)")
    case Nil
    with Cons show ?thesis by (simp add: scan_exp_def)
  next
    case (Cons d ds)
    have "length (dropWhile is_digit ds) \<le> length ds"
      by (rule length_dropWhile_le)
    moreover have "length (d # ds) \<le> length r"
      using scan_sign_length [of r] Cons by simp
    ultimately show ?thesis
      using \<open>s = e # r\<close> Cons by (simp add: scan_exp_def)
  qed
qed

lemma scan_magnitude_length:
  assumes "scan_magnitude neg s = Some (v, r)"
  shows "length r < length s"
proof -
  from assms obtain ip s2 where ip: "scan_intpart s = Some (ip, s2)"
    by (auto simp: scan_magnitude_def split: option.splits)
  from assms ip have "r = snd (scan_exp (snd (scan_frac s2)))"
    by (auto simp: scan_magnitude_def Let_def split_beta split: if_splits)
  moreover have "length (snd (scan_exp (snd (scan_frac s2)))) \<le> length s2"
    using scan_exp_length [of "snd (scan_frac s2)"] scan_frac_length [of s2] by simp
  ultimately show ?thesis
    using scan_intpart_length [OF ip] by simp
qed

lemma scan_number_length:
  assumes "scan_number s = Some (v, r)"
  shows "length r < length s"
  using assms
  by (cases s) (auto simp: scan_number_def less_Suc_eq dest!: scan_magnitude_length split: if_splits)

lemma take_literal_length:
  assumes "take k s = lit" and "length lit = k" and "0 < k"
  shows "length (drop k s) < length s"
proof -
  from assms(1,2) have "k \<le> length s"
    by (metis length_take min.cobounded2 min_def nat_le_linear)
  with assms(3) show ?thesis by simp
qed

lemma skip_ws_Cons_length:
  assumes "skip_ws s = q # r"
  shows "length r < length s"
  using skip_ws_length [of s] assms by simp

lemma scan_once_Suc_length:
  assumes items: "\<And>s vs r. scan_items n s = Some (vs, r) \<Longrightarrow> length r < length s"
    and pairs: "\<And>s ps r. scan_pairs n s = Some (ps, r) \<Longrightarrow> length r < length s"
    and "scan_once (Suc n) s = Some (v, r)"
  shows "length r < length s"
proof -
  from assms(3) obtain c cs where s: "s = c # cs"
    by (cases s) auto
  consider (str) "c = dquote"
    | (obj) "c \<noteq> dquote" "c = CHR ''{''"
    | (arr) "c \<noteq> dquote" "c \<noteq> CHR ''{''" "c = CHR ''[''"
    | (atom) "c \<noteq> dquote" "c \<noteq> CHR ''{''" "c \<noteq> CHR ''[''"
    by blast
  then show ?thesis
  proof cases
    case str
    with assms(3) obtain x where "scanstring cs = Some (x, r)"
      by (auto simp: s)
    from scanstring_length [OF this] show ?thesis by (simp add: s)
  next
    case obj
    with assms(3) obtain q r0 where sk: "skip_ws cs = q # r0"
      by (cases "skip_ws cs") (auto simp: s)
    from skip_ws_Cons_length [OF sk] have r0: "length r0 < length cs" .
    show ?thesis
    proof (cases "q = CHR ''}''")
      case True
      with obj sk assms(3) r0 show ?thesis by (auto simp: s)
    next
      case False
      with obj sk assms(3) obtain ps where "scan_pairs n r0 = Some (ps, r)"
        by (auto simp: s split: if_splits)
      from pairs [OF this] r0 show ?thesis by (simp add: s)
    qed
  next
    case arr
    with assms(3) obtain q r0 where sk: "skip_ws cs = q # r0"
      by (cases "skip_ws cs") (auto simp: s)
    from skip_ws_Cons_length [OF sk] have r0: "length r0 < length cs" .
    show ?thesis
    proof (cases "q = CHR '']''")
      case True
      with arr sk assms(3) r0 show ?thesis by (auto simp: s)
    next
      case False
      with arr sk assms(3) obtain vs where "scan_items n (q # r0) = Some (vs, r)"
        by (auto simp: s split: if_splits)
      from items [OF this] r0 show ?thesis by (simp add: s)
    qed
  next
    case atom
    have lit: "length (drop k s) < length s" if "take k s = lit" "length lit = k" "0 < k" for k lit
      using that by (rule take_literal_length)
    from atom assms(3) have
      "(take 4 s = ''null'' \<and> r = drop 4 s) \<or> (take 4 s = ''true'' \<and> r = drop 4 s) \<or>
       (take 5 s = ''false'' \<and> r = drop 5 s) \<or> scan_number s = Some (v, r) \<or>
       (take 3 s = ''NaN'' \<and> r = drop 3 s) \<or> (take 8 s = ''Infinity'' \<and> r = drop 8 s) \<or>
       (take 9 s = ''-Infinity'' \<and> r = drop 9 s)"
      unfolding s scan_once.simps by (simp split: if_splits option.splits)
    then show ?thesis
      using lit [of 4 "''null''"] lit [of 4 "''true''"] lit [of 5 "''false''"]
        lit [of 3 "''NaN''"] lit [of 8 "''Infinity''"] lit [of 9 "''-Infinity''"]
        scan_number_length [of s v r]
      by (elim disjE conjE) simp_all
  qed
qed

lemma scan_items_Suc_length:
  assumes once: "\<And>s v r. scan_once n s = Some (v, r) \<Longrightarrow> length r < length s"
    and items: "\<And>s vs r. scan_items n s = Some (vs, r) \<Longrightarrow> length r < length s"
    and "scan_items (Suc n) s = Some (vs, r)"
  shows "length r < length s"
proof -
  from assms(3) obtain v r1 where v: "scan_once n s = Some (v, r1)"
    by (cases "scan_once n s") auto
  from once [OF v] have r1: "length r1 < length s" .
  from assms(3) v obtain q r' where sk: "skip_ws r1 = q # r'"
    by (cases "skip_ws r1") auto
  from skip_ws_Cons_length [OF sk] have r': "length r' < length r1" .
  show ?thesis
  proof (cases "q = CHR '']''")
    case True
    with assms(3) v sk r1 r' show ?thesis by auto
  next
    case False
    with assms(3) v sk obtain vs' where "scan_items n (skip_ws r') = Some (vs', r)"
      by (auto split: if_splits)
    from items [OF this] skip_ws_length [of r'] r1 r' show ?thesis by simp
  qed
qed

lemma scan_pairs_Suc_length:
  assumes once: "\<And>s v r. scan_once n s = Some (v, r) \<Longrightarrow> length r < length s"
    and pairs: "\<And>s ps r. scan_pairs n s = Some (ps, r) \<Longrightarrow> length r < length s"
    and "scan_pairs (Suc n) s = Some (ps, r)"
  shows "length r < length s"
proof -
  from assms(3) obtain k r0 where k: "scanstring s = Some (k, r0)"
    by (cases "scanstring s") auto
  from scanstring_length [OF k] have r0: "length r0 < length s" .
  from assms(3) k obtain q r1 where sk0: "skip_ws r0 = q # r1"
    by (cases "skip_ws r0") auto
  from skip_ws_Cons_length [OF sk0] have r1: "length r1 < length r0" .
  from assms(3) k sk0 have q: "q = CHR '':''"
    by (auto split: if_splits)
  from assms(3) k sk0 q obtain v r2 where v: "scan_once n (skip_ws r1) = Some (v, r2)"
    by (cases "scan_once n (skip_ws r1)") auto
  from once [OF v] skip_ws_length [of r1] have r2: "length r2 < length r1" by simp
  from assms(3) k sk0 q v obtain q' r3 where sk2: "skip_ws r2 = q' # r3"
    by (cases "skip_ws r2") auto
  from skip_ws_Cons_length [OF sk2] have r3: "length r3 < length r2" .
  show ?thesis
  proof (cases "q' = CHR ''}''")
    case True
    with assms(3) k sk0 q v sk2 r0 r1 r2 r3 show ?thesis by auto
  next
    case False
    with assms(3) k sk0 q v sk2 obtain q'' r4 where sk3: "skip_ws r3 = q'' # r4"
      by (cases "skip_ws r3") (auto split: if_splits)
    from skip_ws_Cons_length [OF sk3] have r4: "length r4 < length r3" .
    from False assms(3) k sk0 q v sk2 sk3 obtain ps' where "scan_pairs n r4 = Some (ps', r)"
      by (auto split: if_splits)
    from pairs [OF this] r0 r1 r2 r3 r4 show ?thesis by simp
  qed
qed

lemma scan_length_all:
  "(\<forall>s v r. scan_once n s = Some (v, r) \<longrightarrow> length r < length s) \<and>
   (\<forall>s vs r. scan_items n s = Some (vs, r) \<longrightarrow> length r < length s) \<and>
   (\<forall>s ps r. scan_pairs n s = Some (ps, r) \<longrightarrow> length r < length s)"
proof (induction n)
  case 0
  show ?case by simp
next
  case (Suc n)
  then have once: "\<And>s v r. scan_once n s = Some (v, r) \<Longrightarrow> length r < length s"
    and items: "\<And>s vs r. scan_items n s = Some (vs, r) \<Longrightarrow> length r < length s"
    and pairs: "\<And>s ps r. scan_pairs n s = Some (ps, r) \<Longrightarrow> length r < length s"
    by blast+
  show ?case
  proof (intro conjI allI impI)
    fix s v r
    assume "scan_once (Suc n) s = Some (v, r)"
    then show "length r < length s"
      by (rule scan_once_Suc_length [rotated 2]) (erule items pairs)+
  next
    fix s vs r
    assume "scan_items (Suc n) s = Some (vs, r)"
    then show "length r < length s"
      by (rule scan_items_Suc_length [rotated 2]) (erule once items)+
  next
    fix s ps r
    assume "scan_pairs (Suc n) s = Some (ps, r)"
    then show "length r < length s"
      by (rule scan_pairs_Suc_length [rotated 2]) (erule once pairs)+
  qed
qed

lemma scan_once_length: "scan_once n s = Some (v, r) \<Longrightarrow> length r < length s"
  using scan_length_all [of n] by blast

lemma scan_once_Suc_cong:
  assumes "\<And>c cs q r. s = c # cs \<Longrightarrow> skip_ws cs = q # r \<Longrightarrow> scan_pairs m r = scan_pairs n r"
    and "\<And>c cs q r. s = c # cs \<Longrightarrow> skip_ws cs = q # r \<Longrightarrow>
           scan_items m (q # r) = scan_items n (q # r)"
  shows "scan_once (Suc m) s = scan_once (Suc n) s"
proof (cases s)
  case Nil
  then show ?thesis by simp
next
  case (Cons c cs)
  show ?thesis
  proof (cases "skip_ws cs")
    case Nil
    with Cons show ?thesis by simp
  next
    case (Cons q r)
    with \<open>s = c # cs\<close> assms(1) [of c cs q r] assms(2) [of c cs q r] show ?thesis
      by simp
  qed
qed

lemma scan_items_Suc_cong:
  assumes "scan_once m s = scan_once n s"
    and "\<And>v r q r'. scan_once n s = Some (v, r) \<Longrightarrow> skip_ws r = q # r' \<Longrightarrow>
           scan_items m (skip_ws r') = scan_items n (skip_ws r')"
  shows "scan_items (Suc m) s = scan_items (Suc n) s"
proof (cases "scan_once n s")
  case None
  with assms(1) show ?thesis by simp
next
  case (Some vr)
  obtain v r where vr: "vr = (v, r)" by (cases vr)
  show ?thesis
  proof (cases "skip_ws r")
    case Nil
    with Some vr assms(1) show ?thesis by simp
  next
    case (Cons q r')
    with Some vr assms(1) assms(2) [of v r q r'] show ?thesis by simp
  qed
qed

lemma scan_pairs_Suc_cong:
  assumes "\<And>k r q r1. scanstring s = Some (k, r) \<Longrightarrow> skip_ws r = q # r1 \<Longrightarrow>
           scan_once m (skip_ws r1) = scan_once n (skip_ws r1)"
    and "\<And>k r q r1 v r2 q' r3 q'' r4. scanstring s = Some (k, r) \<Longrightarrow> skip_ws r = q # r1 \<Longrightarrow>
           scan_once n (skip_ws r1) = Some (v, r2) \<Longrightarrow> skip_ws r2 = q' # r3 \<Longrightarrow>
           skip_ws r3 = q'' # r4 \<Longrightarrow> scan_pairs m r4 = scan_pairs n r4"
  shows "scan_pairs (Suc m) s = scan_pairs (Suc n) s"
proof (cases "scanstring s")
  case None
  then show ?thesis by simp
next
  case (Some kr)
  obtain k r where kr: "kr = (k, r)" by (cases kr)
  show ?thesis
  proof (cases "skip_ws r")
    case Nil
    with Some kr show ?thesis by simp
  next
    case (Cons q r1)
    note once = assms(1) [OF Some [unfolded kr] Cons]
    show ?thesis
    proof (cases "scan_once n (skip_ws r1)")
      case None
      with Some kr Cons once show ?thesis by simp
    next
      case v: (Some vr2)
      obtain v r2 where vr2: "vr2 = (v, r2)" by (cases vr2)
      show ?thesis
      proof (cases "skip_ws r2")
        case Nil
        with Some kr Cons once v vr2 show ?thesis by simp
      next
        case q': (Cons q' r3)
        show ?thesis
        proof (cases "skip_ws r3")
          case Nil
          with Some kr Cons once v vr2 q' show ?thesis by simp
        next
          case q'': (Cons q'' r4)
          from assms(2) [OF Some [unfolded kr] Cons v [unfolded vr2] q' q'']
          have "scan_pairs m r4 = scan_pairs n r4" .
          with Some kr Cons once v vr2 q' q'' show ?thesis by simp
        qed
      qed
    qed
  qed
qed

lemma scan_fuel_all:
  "(\<forall>s m. 2 * length s + 1 \<le> n \<and> n \<le> m \<longrightarrow> scan_once m s = scan_once n s) \<and>
   (\<forall>s m. 2 * length s + 2 \<le> n \<and> n \<le> m \<longrightarrow> scan_items m s = scan_items n s) \<and>
   (\<forall>s m. 2 * length s + 2 \<le> n \<and> n \<le> m \<longrightarrow> scan_pairs m s = scan_pairs n s)"
proof (induction n)
  case 0
  show ?case by simp
next
  case (Suc n)
  then have once: "\<And>s m. 2 * length s + 1 \<le> n \<Longrightarrow> n \<le> m \<Longrightarrow> scan_once m s = scan_once n s"
    and items: "\<And>s m. 2 * length s + 2 \<le> n \<Longrightarrow> n \<le> m \<Longrightarrow> scan_items m s = scan_items n s"
    and pairs: "\<And>s m. 2 * length s + 2 \<le> n \<Longrightarrow> n \<le> m \<Longrightarrow> scan_pairs m s = scan_pairs n s"
    by blast+
  show ?case
  proof (intro conjI allI impI)
    fix s :: string and m
    assume b: "2 * length s + 1 \<le> Suc n \<and> Suc n \<le> m"
    then obtain m' where m: "m = Suc m'" and m': "n \<le> m'"
      by (cases m) auto
    show "scan_once m s = scan_once (Suc n) s"
      unfolding m
    proof (rule scan_once_Suc_cong)
      fix c cs q r
      assume "s = c # cs" and sk: "skip_ws cs = q # r"
      with b skip_ws_Cons_length [OF sk] have "2 * length r + 2 \<le> n"
        by simp
      then show "scan_pairs m' r = scan_pairs n r"
        using m' by (rule pairs)
    next
      fix c cs q r
      assume "s = c # cs" and sk: "skip_ws cs = q # r"
      with b skip_ws_Cons_length [OF sk] have "2 * length (q # r) + 2 \<le> n"
        by simp
      then show "scan_items m' (q # r) = scan_items n (q # r)"
        using m' by (rule items)
    qed
  next
    fix s :: string and m
    assume b: "2 * length s + 2 \<le> Suc n \<and> Suc n \<le> m"
    then obtain m' where m: "m = Suc m'" and m': "n \<le> m'"
      by (cases m) auto
    show "scan_items m s = scan_items (Suc n) s"
      unfolding m
    proof (rule scan_items_Suc_cong)
      from b have "2 * length s + 1 \<le> n" by simp
      then show "scan_once m' s = scan_once n s"
        using m' by (rule once)
    next
      fix v r q r'
      assume v: "scan_once n s = Some (v, r)" and sk: "skip_ws r = q # r'"
      from scan_once_length [OF v] skip_ws_Cons_length [OF sk] skip_ws_length [of r'] b
      have "2 * length (skip_ws r') + 2 \<le> n"
        by simp
      then show "scan_items m' (skip_ws r') = scan_items n (skip_ws r')"
        using m' by (rule items)
    qed
  next
    fix s :: string and m
    assume b: "2 * length s + 2 \<le> Suc n \<and> Suc n \<le> m"
    then obtain m' where m: "m = Suc m'" and m': "n \<le> m'"
      by (cases m) auto
    show "scan_pairs m s = scan_pairs (Suc n) s"
      unfolding m
    proof (rule scan_pairs_Suc_cong)
      fix k r q r1
      assume k: "scanstring s = Some (k, r)" and sk: "skip_ws r = q # r1"
      from scanstring_length [OF k] skip_ws_Cons_length [OF sk] skip_ws_length [of r1] b
      have "2 * length (skip_ws r1) + 1 \<le> n"
        by simp
      then show "scan_once m' (skip_ws r1) = scan_once n (skip_ws r1)"
        using m' by (rule once)
    next
      fix k r q r1 v r2 q' r3 q'' r4
      assume k: "scanstring s = Some (k, r)" and sk: "skip_ws r = q # r1"
        and v: "scan_once n (skip_ws r1) = Some (v, r2)" and sk2: "skip_ws r2 = q' # r3"
        and sk3: "skip_ws r3 = q'' # r4"
      from scanstring_length [OF k] skip_ws_Cons_length [OF sk] skip_ws_length [of r1]
        scan_once_length [OF v] skip_ws_Cons_length [OF sk2] skip_ws_Cons_length [OF sk3] b
      have "2 * length r4 + 2 \<le> n"
        by simp
      then show "scan_pairs m' r4 = scan_pairs n r4"
        using m' by (rule pairs)
    qed
  qed
qed

text \<open>
  More nested calls than \<open>json_loads\<close> allows never change what is decoded: the bound
  stands for the unbounded recursion of the library.
\<close>

theorem json_loads_fuel:
  assumes "2 * length (skip_ws s) + 1 \<le> m"
  shows "scan_once m (skip_ws s) = scan_once (2 * length (skip_ws s) + 1) (skip_ws s)"
  using scan_fuel_all [of "2 * length (skip_ws s) + 1"] assms by blast

section \<open>The model logger\<close>

subsection \<open>Dictionaries\<close>

lemma map_of_dict_set: "map_of (dict_set d k v) = (map_of d)(k \<mapsto> v)"
  by (induction d) (auto simp: fun_eq_iff)

lemma map_fst_dict_set:
  "map fst (dict_set d k v) = (if k \<in> set (map fst d) then map fst d else map fst d @ [k])"
proof (induction d)
  case Nil
  then show ?case by simp
next
  case (Cons p d)
  obtain k' v' where p: "p = (k', v')" by (cases p)
  show ?case
  proof (cases "k' = k")
    case True
    then show ?thesis by (simp add: p)
  next
    case False
    with Cons show ?thesis by (simp add: p)
  qed
qed

lemma distinct_dict_set: "distinct (map fst d) \<Longrightarrow> distinct (map fst (dict_set d k v))"
  by (simp add: map_fst_dict_set)

lemma set_dict_set: "set (dict_set d k v) \<subseteq> insert (k, v) (set d)"
  by (induction d) (auto split: if_splits)

lemma wf_dict_set:
  assumes "wf_json (JObj d)" and "wf_json v"
  shows "wf_json (JObj (dict_set d k v))"
  using assms set_dict_set [of d k v] by (auto simp: distinct_dict_set)

lemma distinct_dict_of_pairs: "distinct (map fst (dict_of_pairs ps))"
proof -
  have "distinct (map fst acc) \<Longrightarrow>
      distinct (map fst (foldl (\<lambda>d kv. dict_set d (fst kv) (snd kv)) acc ps))" for acc
    by (induction ps arbitrary: acc) (simp_all add: distinct_dict_set)
  from this [of "[]"] show ?thesis
    by (simp add: dict_of_pairs_def)
qed

lemma scan_once_obj_distinct:
  assumes "scan_once n s = Some (JObj d, r)"
  shows "distinct (map fst d)"
proof (cases n)
  case 0
  with assms show ?thesis by simp
next
  case (Suc m)
  with assms show ?thesis
    by (auto simp: distinct_dict_of_pairs scan_number_def scan_magnitude_def Let_def
        split: list.splits if_splits option.splits prod.splits)
qed

lemma parse_log_line_distinct:
  assumes "parse_log_line l = JObj d"
  shows "distinct (map fst d)"
proof (cases "json_loads l")
  case None
  with assms show ?thesis by (simp add: parse_log_line_def)
next
  case (Some v)
  with assms have "json_loads l = Some (JObj d)"
    by (simp add: parse_log_line_def)
  then obtain r where
    "scan_once (2 * length (skip_ws l) + 1) (skip_ws l) = Some (JObj d, r)"
    by (cases "scan_once (2 * length (skip_ws l) + 1) (skip_ws l)")
       (auto simp: json_loads_def Let_def simp del: scan_once.simps split: if_splits)
  then show ?thesis by (rule scan_once_obj_distinct)
qed

subsection \<open>What \<open>log_internal\<close> emits\<close>

lemma lines_log_internal:
  "lines (log_internal clock log_type log_dict L) =
     lines L @ [json_dumps (JObj (dict_set (dict_set log_dict ''type'' (JStr log_type))
                                   ''time'' (JStr (clock (reads L)))))]"
  by (simp add: log_internal_def Let_def)

lemma reads_log_internal: "reads (log_internal clock log_type log_dict L) = Suc (reads L)"
  by (simp add: log_internal_def Let_def)

lemma parse_log_line_dumps:
  assumes "wf_json v"
  shows "parse_log_line (json_dumps v) = v"
  by (simp add: parse_log_line_def json_loads_dumps [OF assms])

lemma wf_stamped:
  assumes "wf_json (JObj d)"
  shows "wf_json (JObj (dict_set (dict_set d ''type'' (JStr t)) ''time'' (JStr n)))"
  by (intro wf_dict_set assms) simp_all

lemma parse_log_internal:
  assumes "wf_json (JObj d)"
  shows "parse_log_line (last (lines (log_internal clock t d L))) =
     JObj (dict_set (dict_set d ''type'' (JStr t)) ''time'' (JStr (clock (reads L))))"
  unfolding lines_log_internal
  by (simp add: parse_log_line_dumps [OF wf_stamped [OF assms]] del: json_dumps.simps)

subsection \<open>The loop of \<open>parse_logs\<close> against the batch decoder\<close>

lemma map_of_drop_key: "k' \<noteq> k \<Longrightarrow> map_of (filter (\<lambda>kv. fst kv \<noteq> k) d) k' = map_of d k'"
  by (induction d) auto

lemma distinct_payload: "distinct (map fst d) \<Longrightarrow> distinct (map fst (payload d))"
  by (simp add: payload_def distinct_map_filter)

lemma payload_keys: "fst ` set (payload d) = fst ` set d - {''time'', ''type''}"
  by (auto simp: payload_def)

lemma parse_logs_step_obj:
  assumes "parse_log_line l = JObj d"
  shows "parse_logs_step (ms, mets, pls) l =
    Inr (ms @ (case message_of (JObj d) of None \<Rightarrow> [] | Some x \<Rightarrow> [x]),
         mets @ (case metrics_of (JObj d) of None \<Rightarrow> [] | Some x \<Rightarrow> [x]),
         pls @ (case plot_of (JObj d) of None \<Rightarrow> [] | Some x \<Rightarrow> [x]))"
proof -
  have dd: "distinct (map fst d)"
    using assms by (rule parse_log_line_distinct)
  have p: "distinct (map fst (payload d))"
    by (rule distinct_payload [OF dd])
  have tp: "distinct (map fst ((''time'', t) # payload d))" for t :: json
    using p payload_keys [of d] by auto
  have two: "dict_of_pairs [(''time'', t), (''message'', m)] = [(''time'', t), (''message'', m)]"
    for t m :: json
    by (rule dict_of_pairs_distinct) simp
  show ?thesis
    by (auto simp: parse_logs_step_def assms dict_has_def dict_del_def map_of_drop_key
        payload_def [symmetric] message_of_def metrics_of_def plot_of_def tagged_def
        dict_of_pairs_distinct [OF p] dict_of_pairs_distinct [OF tp] two
        LogType_MESSAGE_def LogType_METRICS_def LogType_PLOT_def
        split: option.splits)
qed

lemma not_obj_none:
  assumes "\<And>d. v \<noteq> JObj d"
  shows "message_of v = None" and "metrics_of v = None" and "plot_of v = None"
  using assms by (cases v; simp add: message_of_def metrics_of_def plot_of_def tagged_def)+

lemma parse_logs_step_eq:
  "parse_logs_step (ms, mets, pls) l =
    (if raises (parse_log_line l) then Inl TypeError
     else Inr (ms @ (case message_of (parse_log_line l) of None \<Rightarrow> [] | Some x \<Rightarrow> [x]),
               mets @ (case metrics_of (parse_log_line l) of None \<Rightarrow> [] | Some x \<Rightarrow> [x]),
               pls @ (case plot_of (parse_log_line l) of None \<Rightarrow> [] | Some x \<Rightarrow> [x])))"
proof (cases "parse_log_line l")
  case (JObj d)
  then show ?thesis
    by (simp add: parse_logs_step_obj raises_def)
qed (auto simp: parse_logs_step_def raises_def not_obj_none Let_def)

lemma parse_logs_loop_eq:
  "parse_logs_loop (ms, mets, pls) ls =
    (if \<exists>l \<in> set ls. raises (parse_log_line l) then Inl TypeError
     else Inr (ms @ List.map_filter message_of (map parse_log_line ls),
               mets @ List.map_filter metrics_of (map parse_log_line ls),
               pls @ List.map_filter plot_of (map parse_log_line ls)))"
proof (induction ls arbitrary: ms mets pls)
  case Nil
  then show ?case by (simp add: List.map_filter_simps)
next
  case (Cons l ls)
  show ?case
    by (simp add: parse_logs_step_eq Cons.IH List.map_filter_simps split: option.splits)
qed

lemma parse_logs_eq:
  "parse_logs ls =
    (if \<exists>l \<in> set ls. raises (parse_log_line l) then Inl TypeError else Inr (decode_batch ls))"
  by (simp add: parse_logs_def parse_logs_loop_eq decode_batch_def Let_def)

section \<open>Claims about the telemetry codec\<close>


lemma lines_log:
  "lines (log clock msg metrics L) =
     lines L
     @ (if msg \<noteq> [] then
          [json_dumps (JObj [(''message'', JStr msg), (''type'', JStr LogType_MESSAGE),
                             (''time'', JStr (clock (reads L)))])]
        else [])
     @ (if metrics \<noteq> [] then
          [json_dumps (JObj (dict_set (dict_set metrics ''type'' (JStr LogType_METRICS)) ''time''
                               (JStr (clock (reads L + (if msg \<noteq> [] then 1 else 0))))))]
        else [])"
  by (simp add: log_def lines_log_internal reads_log_internal Let_def del: json_dumps.simps)

lemma wf_plot_dict:
  "wf_json (JObj [(''title'', JStr title), (''metrics'', JArr (map JStr metrics)),
                  (''x_axis'', case x_axis of None \<Rightarrow> JNull | Some x \<Rightarrow> JStr x)])"
  by (auto split: option.splits)

lemma parse_define_plot:
  "parse_log_line (last (lines (define_plot clock title metrics x_axis L))) =
     JObj [(''title'', JStr title),
           (''metrics'', JArr (map JStr metrics)),
           (''x_axis'', case x_axis of None \<Rightarrow> JNull | Some x \<Rightarrow> JStr x),
           (''type'', JStr ''PLOT''),
           (''time'', JStr (clock (reads L)))]"
  unfolding define_plot_def
  by (subst parse_log_internal [OF wf_plot_dict]) (simp add: LogType_PLOT_def)

lemma lines_define_plot_fresh:
  "lines (define_plot clock title metrics x_axis fresh) =
     [last (lines (define_plot clock title metrics x_axis fresh))]"
  by (simp add: define_plot_def lines_log_internal fresh_def del: json_dumps.simps)

lemma decode_batch_single:
  "decode_batch [l] =
     (case message_of (parse_log_line l) of None \<Rightarrow> [] | Some x \<Rightarrow> [x],
      case metrics_of (parse_log_line l) of None \<Rightarrow> [] | Some x \<Rightarrow> [x],
      case plot_of (parse_log_line l) of None \<Rightarrow> [] | Some x \<Rightarrow> [x])"
  by (simp add: decode_batch_def split: option.splits)

lemma parse_logs_define_plot:
  "parse_logs (lines (define_plot clock title metrics x_axis fresh)) =
     Inr ([], [],
          [JObj [(''title'', JStr title),
                 (''metrics'', JArr (map JStr metrics)),
                 (''x_axis'', case x_axis of None \<Rightarrow> JNull | Some x \<Rightarrow> JStr x)]])"
  by (subst lines_define_plot_fresh)
     (simp add: parse_logs_eq decode_batch_single parse_define_plot raises_def
        message_of_def metrics_of_def plot_of_def tagged_def payload_def
        LogType_MESSAGE_def LogType_METRICS_def LogType_PLOT_def)

text \<open>
  Claim C1, as stated: after \<^verbatim>\<open>define_plot(title, ["a", "b"])\<close> without
  \<^verbatim>\<open>x_axis\<close>, the decoded plot record has \<^verbatim>\<open>x_axis == "time"\<close>. It does not.
\<close>

theorem define_plot_x_axis_time_counterexample:
  "py_getitem
     (parse_log_line (last (lines (define_plot noon ''Accuracy''
        [''a'', ''b''] None fresh))))
     ''x_axis'' \<noteq> Inr (JStr ''time'')"
  by (simp add: parse_define_plot)

text \<open>
  Claim C1, amended. For every title and list of metric names, \<^verbatim>\<open>define_plot\<close> without
  \<^verbatim>\<open>x_axis\<close> emits a line that decodes to a plot record whose \<^verbatim>\<open>x_axis\<close> field is
  \<^verbatim>\<open>None\<close> (JSON \<^verbatim>\<open>null\<close>): the value of the parameter's default is what is encoded, and
  \<^verbatim>\<open>parse_logs\<close> returns it unchanged.
\<close>

theorem define_plot_x_axis_null:
  "py_getitem (parse_log_line (last (lines (define_plot clock title metrics None L)))) ''x_axis''
     = Inr JNull \<and>
   parse_logs (lines (define_plot clock title metrics None fresh)) =
     Inr ([], [],
          [JObj [(''title'', JStr title), (''metrics'', JArr (map JStr metrics)),
                 (''x_axis'', JNull)]])"
  by (simp add: parse_define_plot parse_logs_define_plot)

theorem define_plot_x_axis_null_witness:
  "parse_logs (lines (define_plot noon ''Accuracy'' [''a'', ''b''] None fresh)) =
     Inr ([], [],
          [JObj [(''title'', JStr ''Accuracy''), (''metrics'', JArr [JStr ''a'', JStr ''b'']),
                 (''x_axis'', JNull)]])"
  using define_plot_x_axis_null [of noon "''Accuracy''" "[''a'', ''b'']" fresh]
  by simp

text \<open>
  Claim C2. \<^verbatim>\<open>parse_log_line\<close> returns whatever \<^verbatim>\<open>json.loads\<close> returns, also when
  that is no dictionary: the line \<^verbatim>\<open>5\<close> decodes to the integer 5, and
  \<^verbatim>\<open>'time' not in 5\<close> raises \<^verbatim>\<open>TypeError\<close> out of \<^verbatim>\<open>parse_logs\<close>.
\<close>

theorem parse_logs_number_line_raises:
  "parse_log_line ''5'' = JInt 5 \<and> parse_logs [''5''] = Inl TypeError"
  by code_simp

text \<open>
  Claim C5. A sequence that mixes two well-formed records with the line \<^verbatim>\<open>null\<close> is
  not decoded to the two records: the loop raises \<^verbatim>\<open>TypeError\<close> at the second line.
\<close>

theorem parse_logs_mixed_lines_raises:
  \<open>parse_logs
     [''{"message": "epoch 1 done", "type": "MESSAGE", "time": "2024-05-01T12:00:00"}'',
      ''null'',
      ''{"loss": 0.5, "epoch": 1, "type": "METRICS", "time": "2024-05-01T12:00:01"}'']
   = Inl TypeError \<and>
   parse_logs
     [''{"message": "epoch 1 done", "type": "MESSAGE", "time": "2024-05-01T12:00:00"}'',
      ''{"loss": 0.5, "epoch": 1, "type": "METRICS", "time": "2024-05-01T12:00:01"}'']
   = Inr ([JObj [(''time'', JStr ''2024-05-01T12:00:00''), (''message'', JStr ''epoch 1 done'')]],
          [JObj [(''time'', JStr ''2024-05-01T12:00:01''), (''loss'', JFloat ''0.5''),
                 (''epoch'', JInt 1)]],
          [])\<close>
  by code_simp

lemma parse_log_message:
  assumes "msg \<noteq> []"
  shows "parse_log_line (last (lines (log clock msg [] L))) =
     JObj [(''message'', JStr msg), (''type'', JStr ''MESSAGE''), (''time'', JStr (clock (reads L)))]"
proof -
  have "wf_json (JObj [(''message'', JStr msg), (''type'', JStr LogType_MESSAGE),
                       (''time'', JStr (clock (reads L)))])"
    by simp
  from parse_log_line_dumps [OF this] assms show ?thesis
    by (simp add: lines_log LogType_MESSAGE_def del: json_dumps.simps)
qed

lemma parse_log_metrics:
  assumes "metrics \<noteq> []" and "wf_json (JObj metrics)"
  shows "parse_log_line (last (lines (log clock msg metrics L))) =
     JObj (dict_set (dict_set metrics ''type'' (JStr ''METRICS'')) ''time''
             (JStr (clock (reads L + (if msg \<noteq> [] then 1 else 0)))))"
proof -
  let ?d = "dict_set (dict_set metrics ''type'' (JStr LogType_METRICS)) ''time''
             (JStr (clock (reads L + (if msg \<noteq> [] then 1 else 0))))"
  have "wf_json (JObj ?d)"
    by (rule wf_stamped [OF assms(2)])
  from parse_log_line_dumps [OF this] assms(1) show ?thesis
    by (simp add: lines_log LogType_METRICS_def del: json_dumps.simps)
qed

lemma stamped_fresh_keys:
  assumes "''type'' \<notin> fst ` set d" and "''time'' \<notin> fst ` set d"
  shows "dict_set (dict_set d ''type'' t) ''time'' n = d @ [(''type'', t), (''time'', n)]"
  using assms by (simp add: dict_set_fresh)

text \<open>
  Claim C4, as stated: decoding the encoded line reproduces every field of every valid
  metrics event. A metric named \<^verbatim>\<open>time\<close> does not come back: \<^verbatim>\<open>log(time=5)\<close> decodes
  to a record whose \<^verbatim>\<open>time\<close> is the timestamp.
\<close>

theorem roundtrip_metric_named_time_counterexample:
  "py_getitem
     (parse_log_line (last (lines (log noon [] [(''time'', JInt 5)] fresh))))
     ''time'' \<noteq> Inr (JInt 5)"
  by (simp add: parse_log_metrics)

text \<open>
  Claim C4, amended. Decoding the line that encodes an event gives back the event's
  fields, in order, followed by the type tag and the timestamp exactly as the clock
  printed it (so it parses to the same second): for every message; for every plot
  definition, with or without \<^verbatim>\<open>x_axis\<close>; and for every metrics dictionary of JSON
  values that has no key \<^verbatim>\<open>type\<close> or \<^verbatim>\<open>time\<close>.
\<close>

theorem encode_decode_roundtrip:
  "(msg \<noteq> [] \<longrightarrow>
      parse_log_line (last (lines (log clock msg [] L))) =
        JObj [(''message'', JStr msg), (''type'', JStr ''MESSAGE''),
              (''time'', JStr (clock (reads L)))]) \<and>
   parse_log_line (last (lines (define_plot clock title names x_axis L))) =
     JObj [(''title'', JStr title), (''metrics'', JArr (map JStr names)),
           (''x_axis'', case x_axis of None \<Rightarrow> JNull | Some x \<Rightarrow> JStr x),
           (''type'', JStr ''PLOT''), (''time'', JStr (clock (reads L)))] \<and>
   (metrics \<noteq> [] \<and> wf_json (JObj metrics) \<and>
    ''type'' \<notin> fst ` set metrics \<and> ''time'' \<notin> fst ` set metrics \<longrightarrow>
      parse_log_line (last (lines (log clock [] metrics L))) =
        JObj (metrics @ [(''type'', JStr ''METRICS''), (''time'', JStr (clock (reads L)))]))"
  by (simp add: parse_log_message parse_define_plot parse_log_metrics stamped_fresh_keys)

theorem encode_decode_roundtrip_witness:
  "parse_log_line (last (lines (log noon ''epoch 1 done'' [] fresh))) =
     JObj [(''message'', JStr ''epoch 1 done''), (''type'', JStr ''MESSAGE''),
           (''time'', JStr ''2024-05-01T12:00:00'')] \<and>
   parse_log_line (last (lines (log noon []
       [(''loss'', JFloat ''0.5''), (''epoch'', JInt 1)] fresh))) =
     JObj [(''loss'', JFloat ''0.5''), (''epoch'', JInt 1), (''type'', JStr ''METRICS''),
           (''time'', JStr ''2024-05-01T12:00:00'')]"
proof -
  have "wf_json (JObj [(''loss'', JFloat ''0.5''), (''epoch'', JInt 1)])"
    by code_simp
  with encode_decode_roundtrip [of "''epoch 1 done''" noon fresh
      "''''" "[]" None "[(''loss'', JFloat ''0.5''), (''epoch'', JInt 1)]"]
  show ?thesis
    by (simp add: fresh_def noon_def)
qed

text \<open>
  Claim C7. What one call of \<^verbatim>\<open>log\<close> emits: a line carrying the message, tagged
  \<^verbatim>\<open>MESSAGE\<close>, exactly when the message is not empty, then a line carrying the metrics,
  tagged \<^verbatim>\<open>METRICS\<close>, exactly when the metrics are not empty; so none, one or two lines.
  The tags are what decoding the emitted lines gives. In particular
  \<^verbatim>\<open>log(loss=0.5, epoch=1)\<close> decodes to one metrics record with both keys and no message.
\<close>

theorem log_emits:
  "lines (log clock msg metrics L) =
     lines L
     @ (if msg \<noteq> [] then
          [json_dumps (JObj [(''message'', JStr msg), (''type'', JStr ''MESSAGE''),
                             (''time'', JStr (clock (reads L)))])]
        else [])
     @ (if metrics \<noteq> [] then
          [json_dumps (JObj (dict_set (dict_set metrics ''type'' (JStr ''METRICS'')) ''time''
                               (JStr (clock (reads L + (if msg \<noteq> [] then 1 else 0))))))]
        else []) \<and>
   (wf_json (JObj metrics) \<longrightarrow>
      map (\<lambda>l. py_getitem (parse_log_line l) ''type'')
          (drop (length (lines L)) (lines (log clock msg metrics L))) =
        (if msg \<noteq> [] then [Inr (JStr ''MESSAGE'')] else [])
        @ (if metrics \<noteq> [] then [Inr (JStr ''METRICS'')] else [])) \<and>
   parse_logs (lines (log clock [] [(''loss'', JFloat ''0.5''), (''epoch'', JInt 1)] fresh)) =
     Inr ([], [JObj [(''time'', JStr (clock 0)), (''loss'', JFloat ''0.5''), (''epoch'', JInt 1)]], [])"
proof (intro conjI impI)
  show "lines (log clock msg metrics L) =
     lines L
     @ (if msg \<noteq> [] then
          [json_dumps (JObj [(''message'', JStr msg), (''type'', JStr ''MESSAGE''),
                             (''time'', JStr (clock (reads L)))])]
        else [])
     @ (if metrics \<noteq> [] then
          [json_dumps (JObj (dict_set (dict_set metrics ''type'' (JStr ''METRICS'')) ''time''
                               (JStr (clock (reads L + (if msg \<noteq> [] then 1 else 0))))))]
        else [])"
    by (simp add: lines_log LogType_MESSAGE_def LogType_METRICS_def del: json_dumps.simps)
next
  assume wf: "wf_json (JObj metrics)"
  let ?m = "JObj [(''message'', JStr msg), (''type'', JStr LogType_MESSAGE),
                  (''time'', JStr (clock (reads L)))]"
  let ?d = "JObj (dict_set (dict_set metrics ''type'' (JStr LogType_METRICS)) ''time''
             (JStr (clock (reads L + (if msg \<noteq> [] then 1 else 0)))))"
  have m: "parse_log_line (json_dumps ?m) = ?m"
    by (rule parse_log_line_dumps) simp
  have d: "parse_log_line (json_dumps ?d) = ?d"
    by (rule parse_log_line_dumps) (rule wf_stamped [OF wf])
  show "map (\<lambda>l. py_getitem (parse_log_line l) ''type'')
          (drop (length (lines L)) (lines (log clock msg metrics L))) =
        (if msg \<noteq> [] then [Inr (JStr ''MESSAGE'')] else [])
        @ (if metrics \<noteq> [] then [Inr (JStr ''METRICS'')] else [])"
    unfolding lines_log
    by (simp add: m d map_of_dict_set del: json_dumps.simps)
       (simp add: LogType_MESSAGE_def LogType_METRICS_def)
next
  have wf: "wf_json (JObj [(''loss'', JFloat ''0.5''), (''epoch'', JInt 1)])"
    by code_simp
  have l: "lines (log clock [] [(''loss'', JFloat ''0.5''), (''epoch'', JInt 1)] fresh) =
      [last (lines (log clock [] [(''loss'', JFloat ''0.5''), (''epoch'', JInt 1)] fresh))]"
    by (simp add: lines_log fresh_def del: json_dumps.simps)
  show "parse_logs (lines (log clock [] [(''loss'', JFloat ''0.5''), (''epoch'', JInt 1)] fresh)) =
     Inr ([], [JObj [(''time'', JStr (clock 0)), (''loss'', JFloat ''0.5''), (''epoch'', JInt 1)]], [])"
    by (subst l)
       (simp add: parse_logs_eq decode_batch_single parse_log_metrics [OF _ wf] raises_def
          message_of_def metrics_of_def plot_of_def tagged_def payload_def fresh_def
          LogType_MESSAGE_def LogType_METRICS_def LogType_PLOT_def)
qed

theorem log_emits_witness:
  "map (\<lambda>l. py_getitem (parse_log_line l) ''type'')
       (drop (length (lines fresh))
          (lines (log noon ''epoch 1 done''
             [(''loss'', JFloat ''0.5''), (''epoch'', JInt 1)] fresh))) =
     [Inr (JStr ''MESSAGE''), Inr (JStr ''METRICS'')] \<and>
   lines (log noon [] [] fresh) = lines fresh"
proof -
  have wf: "wf_json (JObj [(''loss'', JFloat ''0.5''), (''epoch'', JInt 1)])"
    by code_simp
  note both = log_emits [of noon "''epoch 1 done''"
      "[(''loss'', JFloat ''0.5''), (''epoch'', JInt 1)]" fresh,
      THEN conjunct2, THEN conjunct1, THEN mp, OF wf]
  note none = log_emits [of noon "[]" "[]" fresh, THEN conjunct1]
  from both none show ?thesis
    by simp
qed





text \<open>
  Claim C10. When \<^verbatim>\<open>log\<close> is given metrics, the record its line decodes to has the
  tag \<^verbatim>\<open>METRICS\<close> under \<^verbatim>\<open>type\<close> and the timestamp under \<^verbatim>\<open>time\<close>, whatever the
  caller passed under these two names; every other key keeps the caller's value. So
  all metric values come back when no metric is named \<^verbatim>\<open>type\<close> or \<^verbatim>\<open>time\<close>, and a
  metric named so comes back changed unless it happened to equal the tag or the timestamp.
\<close>

theorem log_overwrites_type_and_time:
  assumes "metrics \<noteq> []" and "wf_json (JObj metrics)"
  shows
   "py_getitem (parse_log_line (last (lines (log clock msg metrics L)))) ''type''
      = Inr (JStr ''METRICS'') \<and>
    py_getitem (parse_log_line (last (lines (log clock msg metrics L)))) ''time''
      = Inr (JStr (clock (reads L + (if msg \<noteq> [] then 1 else 0)))) \<and>
    (\<forall>k. k \<noteq> ''type'' \<and> k \<noteq> ''time'' \<longrightarrow>
       py_getitem (parse_log_line (last (lines (log clock msg metrics L)))) k
         = py_getitem (JObj metrics) k) \<and>
    (''type'' \<notin> fst ` set metrics \<and> ''time'' \<notin> fst ` set metrics \<longrightarrow>
       (\<forall>k \<in> fst ` set metrics.
          py_getitem (parse_log_line (last (lines (log clock msg metrics L)))) k
            = py_getitem (JObj metrics) k)) \<and>
    (\<forall>v. py_getitem (JObj metrics) ''type'' = Inr v \<and> v \<noteq> JStr ''METRICS'' \<longrightarrow>
       py_getitem (parse_log_line (last (lines (log clock msg metrics L)))) ''type'' \<noteq> Inr v) \<and>
    (\<forall>v. py_getitem (JObj metrics) ''time'' = Inr v \<and>
         v \<noteq> JStr (clock (reads L + (if msg \<noteq> [] then 1 else 0))) \<longrightarrow>
       py_getitem (parse_log_line (last (lines (log clock msg metrics L)))) ''time'' \<noteq> Inr v)"
proof -
  let ?now = "JStr (clock (reads L + (if msg \<noteq> [] then 1 else 0)))"
  let ?d = "dict_set (dict_set metrics ''type'' (JStr ''METRICS'')) ''time'' ?now"
  let ?R = "parse_log_line (last (lines (log clock msg metrics L)))"
  have decoded: "?R = JObj ?d"
    by (rule parse_log_metrics [OF assms])
  have tag: "py_getitem ?R ''type'' = Inr (JStr ''METRICS'')"
    and stamp: "py_getitem ?R ''time'' = Inr ?now"
    unfolding decoded by (simp_all add: map_of_dict_set)
  have other: "py_getitem ?R k = py_getitem (JObj metrics) k"
    if "k \<noteq> ''type''" and "k \<noteq> ''time''" for k
    unfolding decoded using that by (simp add: map_of_dict_set)
  have others: "\<forall>k. k \<noteq> ''type'' \<and> k \<noteq> ''time'' \<longrightarrow>
      py_getitem ?R k = py_getitem (JObj metrics) k"
  proof (intro allI impI)
    fix k assume "k \<noteq> ''type'' \<and> k \<noteq> ''time''"
    then show "py_getitem ?R k = py_getitem (JObj metrics) k"
      by (intro other) simp_all
  qed
  have disjoint: "''type'' \<notin> fst ` set metrics \<and> ''time'' \<notin> fst ` set metrics \<longrightarrow>
       (\<forall>k \<in> fst ` set metrics. py_getitem ?R k = py_getitem (JObj metrics) k)"
  proof (intro impI ballI)
    fix k
    assume absent: "''type'' \<notin> fst ` set metrics \<and> ''time'' \<notin> fst ` set metrics"
      and k: "k \<in> fst ` set metrics"
    have "k \<noteq> ''type''"
    proof
      assume "k = ''type''"
      with k absent show False by simp
    qed
    moreover have "k \<noteq> ''time''"
    proof
      assume "k = ''time''"
      with k absent show False by simp
    qed
    ultimately show "py_getitem ?R k = py_getitem (JObj metrics) k"
      by (rule other)
  qed
  have tag_lost: "\<forall>v. py_getitem (JObj metrics) ''type'' = Inr v \<and> v \<noteq> JStr ''METRICS'' \<longrightarrow>
       py_getitem ?R ''type'' \<noteq> Inr v"
    unfolding tag by auto
  have stamp_lost: "\<forall>v. py_getitem (JObj metrics) ''time'' = Inr v \<and> v \<noteq> ?now \<longrightarrow>
       py_getitem ?R ''time'' \<noteq> Inr v"
    unfolding stamp by auto
  from tag stamp others disjoint tag_lost stamp_lost show ?thesis
    by (intro conjI)
qed

theorem log_overwrites_type_and_time_witness:
  "py_getitem (parse_log_line (last (lines (log noon []
       [(''time'', JInt 5), (''type'', JStr ''mine''), (''loss'', JFloat ''0.5'')] fresh)))) ''type''
     = Inr (JStr ''METRICS'') \<and>
   py_getitem (parse_log_line (last (lines (log noon []
       [(''time'', JInt 5), (''type'', JStr ''mine''), (''loss'', JFloat ''0.5'')] fresh)))) ''time''
     = Inr (JStr ''2024-05-01T12:00:00'') \<and>
   py_getitem (parse_log_line (last (lines (log noon []
       [(''time'', JInt 5), (''type'', JStr ''mine''), (''loss'', JFloat ''0.5'')] fresh)))) ''loss''
     = Inr (JFloat ''0.5'')"
proof -
  have wf: "wf_json (JObj [(''time'', JInt 5), (''type'', JStr ''mine''), (''loss'', JFloat ''0.5'')])"
    by code_simp
  have ne: "[(''time'', JInt 5), (''type'', JStr ''mine''), (''loss'', JFloat ''0.5'')] \<noteq> []"
    by simp
  note all = log_overwrites_type_and_time [OF ne wf, of noon "[]" fresh]
  from all [THEN conjunct1] all [THEN conjunct2, THEN conjunct1]
    all [THEN conjunct2, THEN conjunct2, THEN conjunct1, rule_format, of "''loss''"]
  show ?thesis
    by (simp add: noon_def)
qed

section \<open>The worker supervisor\<close>

subsection \<open>The install loop\<close>

lemma install_loop_failures:
  assumes "\<forall>i \<in> set is. exit_codes i \<noteq> 0"
  shows "install_loop cmd exit_codes (is @ js) trace =
    install_loop cmd exit_codes js
      (trace @ concat (map (\<lambda>i. [System cmd, Print (install_message cmd), Sleep 3]) is))"
  using assms by (induction "is" arbitrary: trace) simp_all

lemma attempts_append: "attempts (xs @ ys) = attempts xs + attempts ys"
  by (induction xs rule: attempts.induct) simp_all

lemma sleeps_append: "sleeps (xs @ ys) = sleeps xs @ sleeps ys"
  by (induction xs rule: sleeps.induct) simp_all

lemma attempts_rounds:
  "attempts (concat (map (\<lambda>i. [System cmd, Print msg, Sleep 3]) is)) = length is"
  by (induction "is") simp_all

lemma sleeps_rounds:
  "sleeps (concat (map (\<lambda>i. [System cmd, Print msg, Sleep 3]) is)) = replicate (length is) 3"
  by (induction "is") simp_all

lemma run_install_success:
  assumes "k < 10" and "\<forall>i<k. exit_codes i \<noteq> 0" and "exit_codes k = 0"
  shows "run_install cmd exit_codes =
    (Inr (), concat (map (\<lambda>i. [System cmd, Print (install_message cmd), Sleep 3]) [0..<k])
             @ [System cmd])"
proof -
  have "[0..<10] = [0..<k] @ [k..<10]"
    using upt_add_eq_append [of 0 k "10 - k"] assms(1) by simp
  moreover have "[k..<10] = k # [Suc k..<10]"
    using assms(1) by (rule upt_conv_Cons)
  ultimately have "[0..<10] = [0..<k] @ k # [Suc k..<10]"
    by simp
  moreover have "\<forall>i \<in> set [0..<k]. exit_codes i \<noteq> 0"
    using assms(2) by simp
  ultimately show ?thesis
    using assms(3) by (simp add: run_install_def install_loop_failures del: upt_Suc)
qed

lemma run_install_failure:
  assumes "\<forall>i<10. exit_codes i \<noteq> 0"
  shows "run_install cmd exit_codes =
    (Inl (Exception (install_message cmd)),
     concat (map (\<lambda>i. [System cmd, Print (install_message cmd), Sleep 3]) [0..<10]))"
proof -
  have "\<forall>i \<in> set [0..<10]. exit_codes i \<noteq> 0"
    using assms by simp
  from install_loop_failures [OF this, of cmd "[]" "[]"] show ?thesis
    by (simp add: run_install_def del: upt_Suc)
qed

text \<open>
  Claim C3. Whatever the exit statuses of the install command are: when its first \<open>k\<close>
  runs fail and run \<open>k\<close> succeeds (\<open>k < 10\<close>), the loop makes exactly \<open>k + 1\<close>
  attempts, each failed one followed by a message and a sleep of 3, ends with the
  successful run and the script proceeds; in particular nine failures followed by a
  success make exactly ten attempts. When all of the first ten
  runs fail, it makes exactly ten attempts and raises an exception. Every failed attempt
  is followed by a sleep of 3.
\<close>

theorem install_retry:
  "(k < 10 \<and> (\<forall>i<k. exit_codes i \<noteq> 0) \<and> exit_codes k = 0 \<longrightarrow>
      run_install cmd exit_codes =
        (Inr (), concat (replicate k [System cmd, Print (install_message cmd), Sleep 3])
                 @ [System cmd]) \<and>
      attempts (snd (run_install cmd exit_codes)) = k + 1 \<and>
      sleeps (snd (run_install cmd exit_codes)) = replicate k 3) \<and>
   ((\<forall>i<9. exit_codes i \<noteq> 0) \<and> exit_codes 9 = 0 \<longrightarrow>
      fst (run_install cmd exit_codes) = Inr () \<and>
      attempts (snd (run_install cmd exit_codes)) = 10 \<and>
      sleeps (snd (run_install cmd exit_codes)) = replicate 9 3) \<and>
   ((\<forall>i<10. exit_codes i \<noteq> 0) \<longrightarrow>
      run_install cmd exit_codes =
        (Inl (Exception (install_message cmd)),
         concat (replicate 10 [System cmd, Print (install_message cmd), Sleep 3])) \<and>
      attempts (snd (run_install cmd exit_codes)) = 10 \<and>
      sleeps (snd (run_install cmd exit_codes)) = replicate 10 3)"
proof (intro conjI impI)
  assume "k < 10 \<and> (\<forall>i<k. exit_codes i \<noteq> 0) \<and> exit_codes k = 0"
  then have r: "run_install cmd exit_codes =
    (Inr (), concat (map (\<lambda>i. [System cmd, Print (install_message cmd), Sleep 3]) [0..<k])
             @ [System cmd])"
    by (intro run_install_success) simp_all
  show "run_install cmd exit_codes =
        (Inr (), concat (replicate k [System cmd, Print (install_message cmd), Sleep 3])
                 @ [System cmd])"
    by (simp add: r map_replicate_const)
  show "attempts (snd (run_install cmd exit_codes)) = k + 1"
    and "sleeps (snd (run_install cmd exit_codes)) = replicate k 3"
    by (simp_all add: r attempts_append sleeps_append attempts_rounds sleeps_rounds)
next
  assume "(\<forall>i<9. exit_codes i \<noteq> 0) \<and> exit_codes 9 = 0"
  then have r: "run_install cmd exit_codes =
    (Inr (), concat (map (\<lambda>i. [System cmd, Print (install_message cmd), Sleep 3]) [0..<9])
             @ [System cmd])"
    by (intro run_install_success) simp_all
  show "fst (run_install cmd exit_codes) = Inr ()"
    and "attempts (snd (run_install cmd exit_codes)) = 10"
    and "sleeps (snd (run_install cmd exit_codes)) = replicate 9 3"
    unfolding r by (simp_all add: attempts_append sleeps_append attempts_rounds sleeps_rounds del: upt_Suc)
next
  assume "\<forall>i<10. exit_codes i \<noteq> 0"
  then have r: "run_install cmd exit_codes =
    (Inl (Exception (install_message cmd)),
     concat (map (\<lambda>i. [System cmd, Print (install_message cmd), Sleep 3]) [0..<10]))"
    by (rule run_install_failure)
  show "run_install cmd exit_codes =
        (Inl (Exception (install_message cmd)),
         concat (replicate 10 [System cmd, Print (install_message cmd), Sleep 3]))"
    unfolding r by (simp add: map_replicate_const del: upt_Suc)
  show "attempts (snd (run_install cmd exit_codes)) = 10"
    and "sleeps (snd (run_install cmd exit_codes)) = replicate 10 3"
    unfolding r by (simp_all add: attempts_rounds sleeps_rounds del: upt_Suc)
qed

theorem install_retry_witness:
  "run_install ''pip install -r requirements.txt'' (\<lambda>i. if i < 9 then 256 else 0) =
     (Inr (),
      concat (replicate 9 [System ''pip install -r requirements.txt'',
                           Print (install_message ''pip install -r requirements.txt''), Sleep 3])
      @ [System ''pip install -r requirements.txt'']) \<and>
   attempts (snd (run_install ''pip install -r requirements.txt'' (\<lambda>i. if i < 9 then 256 else 0)))
     = 9 + 1 \<and>
   run_install ''false'' (\<lambda>i. 256) =
     (Inl (Exception (install_message ''false'')),
      concat (replicate 10 [System ''false'', Print (install_message ''false''), Sleep 3])) \<and>
   attempts (snd (run_install ''false'' (\<lambda>i. 256))) = 10 \<and>
   sleeps (snd (run_install ''false'' (\<lambda>i. 256))) = replicate 10 3"
proof -
  have nine: "9 < (10::nat) \<and> (\<forall>i<9. (if i < (9::nat) then 256 else 0) \<noteq> (0::int)) \<and>
      (if (9::nat) < 9 then 256 else 0) = (0::int)"
    by simp
  have never: "\<forall>i<10::nat. (256::int) \<noteq> 0"
    by simp
  note succeeds = install_retry [of 9 "\<lambda>i. if i < 9 then 256 else 0"
      "''pip install -r requirements.txt''", THEN conjunct1, THEN mp, OF nine]
  note fails = install_retry [of 0 "\<lambda>i. 256" "''false''",
      THEN conjunct2, THEN conjunct2, THEN mp, OF never]
  from succeeds [THEN conjunct1] succeeds [THEN conjunct2, THEN conjunct1]
    fails [THEN conjunct1] fails [THEN conjunct2, THEN conjunct1]
    fails [THEN conjunct2, THEN conjunct2]
  show ?thesis
    by (intro conjI)
qed

subsection \<open>Starting and stopping the worker\<close>

text \<open>
  Claim C8. For a service type that is none of the three constants, \<^verbatim>\<open>start_worker\<close>
  raises an exception whose message ends with the service type it was given, and the
  state is left as it was: no worker is constructed, none is started.
\<close>

theorem start_worker_unknown_type:
  assumes "service_type \<notin> {TRAIN T, INFERENCE T, ADVISOR T}"
  shows "start_worker T service_id service_type container_id S =
      (Inl (Exception (''Invalid service type: '' @ service_type)), S) \<and>
    (\<forall>w. Construct w \<notin> set (calls (snd (start_worker T service_id service_type container_id initial))))"
  using assms by (simp add: start_worker_def initial_def)

theorem start_worker_unknown_type_witness:
  "''BOGUS'' \<notin> {''TRAIN'', ''INFERENCE'', ''ADVISOR''} \<and>
   start_worker \<lparr>TRAIN = ''TRAIN'', INFERENCE = ''INFERENCE'', ADVISOR = ''ADVISOR''\<rparr>
       ''service-1'' ''BOGUS'' ''container-1'' initial =
     (Inl (Exception ''Invalid service type: BOGUS''), initial)"
  using start_worker_unknown_type
    [of "''BOGUS''" "\<lparr>TRAIN = ''TRAIN'', INFERENCE = ''INFERENCE'', ADVISOR = ''ADVISOR''\<rparr>"
        "''service-1''" "''container-1''" initial]
  by simp

text \<open>
  Claim C9. \<^verbatim>\<open>stop_worker\<close> never raises. While the variable \<^verbatim>\<open>worker\<close> is
  \<^verbatim>\<open>None\<close> (at the start, or after a \<^verbatim>\<open>start_worker\<close> that refused the service
  type) it changes nothing and calls nothing; once a worker has been constructed it calls
  that worker's \<^verbatim>\<open>stop\<close> and nothing else.
\<close>

theorem stop_worker_cases:
  "(worker S = None \<longrightarrow> stop_worker S = S) \<and>
   (worker S = Some w \<longrightarrow>
      stop_worker S = S\<lparr>calls := calls S @ [Stop w]\<rparr> \<and> worker (stop_worker S) = Some w) \<and>
   stop_worker initial = initial \<and>
   (service_type \<notin> {TRAIN T, INFERENCE T, ADVISOR T} \<longrightarrow>
      stop_worker (snd (start_worker T service_id service_type container_id initial)) = initial)"
  by (simp add: stop_worker_def initial_def start_worker_def)

theorem stop_worker_cases_witness:
  "worker initial = None \<and> stop_worker initial = initial \<and>
   worker (launch (TrainWorker ''service-1'' ''container-1'') initial)
     = Some (TrainWorker ''service-1'' ''container-1'') \<and>
   calls (stop_worker (launch (TrainWorker ''service-1'' ''container-1'') initial))
     = [Construct (TrainWorker ''service-1'' ''container-1''),
        Start (TrainWorker ''service-1'' ''container-1''),
        Stop (TrainWorker ''service-1'' ''container-1'')] \<and>
   stop_worker (snd (start_worker \<lparr>TRAIN = ''TRAIN'', INFERENCE = ''INFERENCE'', ADVISOR = ''ADVISOR''\<rparr>
       ''service-1'' ''BOGUS'' ''container-1'' initial)) = initial"
  using stop_worker_cases [of initial]
    stop_worker_cases [of "launch (TrainWorker ''service-1'' ''container-1'') initial"
      "TrainWorker ''service-1'' ''container-1''" "''BOGUS''"
      "\<lparr>TRAIN = ''TRAIN'', INFERENCE = ''INFERENCE'', ADVISOR = ''ADVISOR''\<rparr>"
      "''service-1''" "''container-1''"]
  by (simp add: launch_def initial_def)

end
